theory Spec2Isabelle
  imports Complex_Main "HOL-Library.Sublist" "HOL-Library.Log_Nat"
begin

section \<open>Strings and arrays of the host language\<close>

text \<open>
  The program is TypeScript. A string is modelled as a list of 8-bit characters, read as
  the UTF-16 code units U+0000 .. U+00FF (ASCII and the Latin-1 supplement); \<open>length\<close>
  is the \<open>.length\<close> of the source. Arrays are lists. Logging (\<open>console.log\<close>) has no
  effect on any returned value and is left out.
\<close>

definition code :: "char \<Rightarrow> nat" where
  "code c = of_char c"

text \<open>\<open>String.prototype.toLowerCase\<close> on the code units below U+0100: the ASCII capitals
  and the Latin-1 capitals U+00C0 .. U+00DE (without the multiplication sign U+00D7) move
  up by 32; every other unit is unchanged.\<close>

definition lowerChar :: "char \<Rightarrow> char" where
  "lowerChar c =
     (if (65 \<le> code c \<and> code c \<le> 90) \<or> (192 \<le> code c \<and> code c \<le> 222 \<and> code c \<noteq> 215)
      then char_of (code c + 32) else c)"

definition toLowerCase :: "string \<Rightarrow> string" where
  "toLowerCase s = map lowerChar s"

text \<open>\<open>s.includes(t)\<close>: \<open>t\<close> occurs in \<open>s\<close> as a contiguous substring.\<close>

fun str_includes :: "string \<Rightarrow> string \<Rightarrow> bool" where
  "str_includes [] t = (t = [])"
| "str_includes (c # s) t = (prefix t (c # s) \<or> str_includes s t)"

text \<open>\<open>s.startsWith(t)\<close>.\<close>

definition startsWith :: "string \<Rightarrow> string \<Rightarrow> bool" where
  "startsWith s t = prefix t s"

text \<open>White space of \<open>trim\<close> and of the regular expression class \<open>\s\<close>, among the
  units below U+0100: TAB, LF, VT, FF, CR, SPACE and NO-BREAK SPACE.\<close>

definition isSpace :: "char \<Rightarrow> bool" where
  "isSpace c = (code c \<in> set [9, 10, 11, 12, 13, 32, 160])"

definition str_trim :: "string \<Rightarrow> string" where
  "str_trim s = rev (dropWhile isSpace (rev (dropWhile isSpace s)))"

text \<open>\<open>s.split(sep)\<close> for a one-character separator: the result is never empty, and
  splitting the empty string gives one empty string.\<close>

fun str_split :: "char \<Rightarrow> string \<Rightarrow> string list" where
  "str_split sep [] = [[]]"
| "str_split sep (c # s) =
     (if c = sep then [] # str_split sep s
      else (case str_split sep s of
              [] \<Rightarrow> [[c]]
            | w # ws \<Rightarrow> (c # w) # ws))"

text \<open>\<open>xs.join(sep)\<close>, \<open>xs.slice(i, j)\<close> and \<open>xs.indexOf(x)\<close> (\<open>-1\<close> when absent).\<close>

fun arr_join :: "string \<Rightarrow> string list \<Rightarrow> string" where
  "arr_join sep [] = []"
| "arr_join sep [x] = x"
| "arr_join sep (x # y # ys) = x @ sep @ arr_join sep (y # ys)"

definition arr_slice :: "nat \<Rightarrow> nat \<Rightarrow> 'a list \<Rightarrow> 'a list" where
  "arr_slice i j xs = take (j - i) (drop i xs)"

fun arr_indexOf :: "'a list \<Rightarrow> 'a \<Rightarrow> int" where
  "arr_indexOf [] x = - 1"
| "arr_indexOf (y # ys) x =
     (if y = x then 0
      else (let r = arr_indexOf ys x in if r < 0 then - 1 else r + 1))"

section \<open>Regular expressions\<close>

text \<open>
  The regular expressions of the source use literals, character classes, greedy
  quantifiers on a class, the greedy \<open>?\<close> on a group, sequence, alternation and the
  anchor \<open>$\<close>. A class is a list of inclusive ranges of characters.
\<close>

type_synonym cclass = "(char \<times> char) list"

datatype re =
    Str string
  | Cls cclass
  | Rep nat "nat option" cclass
  | Opt re
  | Seq re re
  | Alt re re
  | Eol

definition upperChar :: "char \<Rightarrow> char" where
  "upperChar c =
     (if (97 \<le> code c \<and> code c \<le> 122) \<or> (224 \<le> code c \<and> code c \<le> 254 \<and> code c \<noteq> 247)
      then char_of (code c - 32) else c)"

definition in_ranges :: "cclass \<Rightarrow> char \<Rightarrow> bool" where
  "in_ranges k c = list_ex (\<lambda>(lo, hi). code lo \<le> code c \<and> code c \<le> code hi) k"

text \<open>With the flag \<open>i\<close> (\<open>ci\<close>) a character matches when its upper-case or lower-case
  partner does.\<close>

definition in_class :: "bool \<Rightarrow> cclass \<Rightarrow> char \<Rightarrow> bool" where
  "in_class ci k c =
     (in_ranges k c \<or> (ci \<and> (in_ranges k (lowerChar c) \<or> in_ranges k (upperChar c))))"

definition chr_eq :: "bool \<Rightarrow> char \<Rightarrow> char \<Rightarrow> bool" where
  "chr_eq ci a b = (a = b \<or> (ci \<and> upperChar a = upperChar b))"

fun lit_rest :: "bool \<Rightarrow> string \<Rightarrow> string \<Rightarrow> string option" where
  "lit_rest ci [] s = Some s"
| "lit_rest ci (a # l) [] = None"
| "lit_rest ci (a # l) (c # s) = (if chr_eq ci a c then lit_rest ci l s else None)"

text \<open>
  \<open>ends ci r s\<close> lists, in the order a backtracking matcher tries them, the remainders
  of \<open>s\<close> after a match of \<open>r\<close> at the start of \<open>s\<close>. A greedy quantifier tries the
  longest run first; \<open>?\<close> tries its group before skipping it; an alternation tries
  its left branch first. The head of the list is the match the engine reports.
\<close>

fun ends :: "bool \<Rightarrow> re \<Rightarrow> string \<Rightarrow> string list" where
  "ends ci (Str l) s = (case lit_rest ci l s of None \<Rightarrow> [] | Some t \<Rightarrow> [t])"
| "ends ci (Cls k) s = (case s of [] \<Rightarrow> [] | c # t \<Rightarrow> if in_class ci k c then [t] else [])"
| "ends ci (Rep m n k) s =
     (let run = length (takeWhile (in_class ci k) s);
          hi = (case n of None \<Rightarrow> run | Some b \<Rightarrow> min b run)
      in map (\<lambda>j. drop j s) (rev [m ..< Suc hi]))"
| "ends ci (Opt r) s = ends ci r s @ [s]"
| "ends ci (Seq a b) s = concat (map (ends ci b) (ends ci a s))"
| "ends ci (Alt a b) s = ends ci a s @ ends ci b s"
| "ends ci Eol s = (if s = [] then [s] else [])"

text \<open>\<open>regex.test(s)\<close> for an expression that starts with \<open>^\<close>, and for one without
  anchor (a match may start anywhere).\<close>

definition test_from_start :: "re \<Rightarrow> string \<Rightarrow> bool" where
  "test_from_start r s = (ends False r s \<noteq> [])"

definition test_anywhere :: "re \<Rightarrow> string \<Rightarrow> bool" where
  "test_anywhere r s = list_ex (\<lambda>t. ends False r t \<noteq> []) (suffixes s)"

text \<open>The length of the match that the engine reports at the start of \<open>s\<close>.\<close>

definition match_len :: "bool \<Rightarrow> re \<Rightarrow> string \<Rightarrow> nat option" where
  "match_len ci r s = (case ends ci r s of [] \<Rightarrow> None | t # _ \<Rightarrow> Some (length s - length t))"

text \<open>
  \<open>s.match(regex)\<close> with the flag \<open>g\<close>: from \<open>lastIndex = 0\<close>, find the leftmost
  position with a match, record the matched text, continue after it (one unit further
  after an empty match), until no position is left. The argument is the text from
  \<open>lastIndex\<close> on. The result is \<open>null\<close> (\<open>None\<close>) when nothing matched.
\<close>

function match_all :: "bool \<Rightarrow> re \<Rightarrow> string \<Rightarrow> string list" where
  "match_all ci r s =
     (case match_len ci r s of
        None \<Rightarrow> (if s = [] then [] else match_all ci r (tl s))
      | Some n \<Rightarrow> take n s # (if s = [] then [] else match_all ci r (drop (max 1 n) s)))"
  by pat_completeness auto
termination
  by (relation "measure (\<lambda>(ci, r, s). length s)") auto

declare match_all.simps [simp del]

definition str_match_g :: "bool \<Rightarrow> re \<Rightarrow> string \<Rightarrow> string list option" where
  "str_match_g ci r s = (let ms = match_all ci r s in if ms = [] then None else Some ms)"

section \<open>Candidates\<close>

datatype strategy = Context | Positional | Pattern

record candidate =
  name :: string
  strategy :: strategy
  score :: int

section \<open>The line preprocessor\<close>

definition digitC :: cclass where
  "digitC = [(CHR ''0'', CHR ''9'')]"

definition spaceC :: cclass where
  "spaceC = [(CHR 0x09, CHR 0x0D), (CHR '' '', CHR '' ''), (CHR 0xA0, CHR 0xA0)]"

definition upperAZ :: cclass where
  "upperAZ = [(CHR ''A'', CHR ''Z'')]"

definition lowerAZ :: cclass where
  "lowerAZ = [(CHR ''a'', CHR ''z'')]"

definition letterC :: cclass where
  "letterC = [(CHR ''a'', CHR ''z''), (CHR ''A'', CHR ''Z'')]"

text \<open>\<open>/^\d+$/\<close> and \<open>/[a-zA-Z]/\<close>.\<close>

definition justNumbersRegex :: re where
  "justNumbersRegex = Seq (Rep 1 None digitC) Eol"

definition anyLetterRegex :: re where
  "anyLetterRegex = Cls letterC"

definition commonWords :: "string list" where
  "commonWords = [''our'', ''menu'', ''hours'', ''open'', ''closed'', ''welcome'', ''visit'',
     ''call'', ''phone'', ''email'']"

text \<open>The callback of \<open>filter\<close> in \<open>preprocessLines\<close>: a line is kept when the list
  \<open>reasons\<close> stays empty, that is when none of the nine checks fires.\<close>

definition isKept :: "string \<Rightarrow> bool" where
  "isKept line =
     (let lower = toLowerCase line
      in \<not> (length line \<le> 1) \<and>
         \<not> (lower \<in> set commonWords) \<and>
         \<not> startsWith lower ''www'' \<and>
         \<not> startsWith lower ''http'' \<and>
         \<not> str_includes lower ''@'' \<and>
         \<not> test_from_start justNumbersRegex line \<and>
         \<not> (line = ''&'') \<and>
         \<not> (line = ''-'') \<and>
         test_anywhere anyLetterRegex line)"

definition preprocessLines :: "string list \<Rightarrow> string list" where
  "preprocessLines lines = filter isKept (map str_trim lines)"

section \<open>The candidate generators\<close>

text \<open>\<open>businessIndicators\<close>: the \<open>words\<close> of each entry, in declaration order (the
  field \<open>weight\<close> is never read).\<close>

definition businessIndicators :: "string list list" where
  "businessIndicators =
     [[''coffee''], [''food'', ''park''], [''coffee'', ''shop''], [''restaurant''], [''market''],
      [''center''], [''plaza''], [''cafe''], [''grill''], [''bar'']]"

text \<open>The loop over \<open>businessIndicators\<close> for one window: push the window at the first
  indicator whose words all occur, then \<open>break\<close>.\<close>

fun indicator_loop :: "string \<Rightarrow> string list list \<Rightarrow> string list" where
  "indicator_loop combined [] = []"
| "indicator_loop combined (wordsI # rest) =
     (let lowerCombined = toLowerCase combined;
          hasAllWords = list_all (\<lambda>word. str_includes lowerCombined word) wordsI
      in if hasAllWords \<and> length combined < 50 then [combined]
         else indicator_loop combined rest)"

definition extractWithBusinessContext :: "string list \<Rightarrow> string list" where
  "extractWithBusinessContext lines =
     concat (map (\<lambda>i.
       concat (map (\<lambda>j. indicator_loop (arr_join '' '' (arr_slice i j lines)) businessIndicators)
         [i + 1 ..< Suc (min (i + 4) (length lines))]))
       [0 ..< length lines])"

text \<open>One round of the loop of \<open>extractWithPositionalWeighting\<close>, for the index \<open>i\<close>
  (which is below \<open>lines.length\<close>): what it pushes, in order.\<close>

definition positional_step :: "string list \<Rightarrow> nat \<Rightarrow> string list" where
  "positional_step lines i =
     (let line = lines ! i
      in (if length line \<ge> 4 \<and> length line \<le> 15 then [line] else []) @
         (if int i < int (length lines) - 1
          then (let combined = lines ! i @ '' '' @ lines ! (i + 1)
                in if length combined \<le> 30 then [combined] else [])
          else []) @
         (if int i < int (length lines) - 2
          then (let combined = lines ! i @ '' '' @ lines ! (i + 1) @ '' '' @ lines ! (i + 2)
                in if length combined \<le> 40 then [combined] else [])
          else []))"

definition extractWithPositionalWeighting :: "string list \<Rightarrow> string list" where
  "extractWithPositionalWeighting lines =
     concat (map (positional_step lines) [0 ..< min (length lines) 5])"

text \<open>The four shapes of \<open>extractWithPatternMatching\<close>, in declaration order.\<close>

definition properWord :: re where
  "properWord = Seq (Cls upperAZ) (Rep 1 None lowerAZ)"

definition capsWord :: re where
  "capsWord = Rep 1 None upperAZ"

definition patterns :: "re list" where
  "patterns =
     [Seq properWord (Seq (Str '' '') (Seq properWord Eol)),
      Seq capsWord (Seq (Str '' '') (Seq capsWord Eol)),
      Seq properWord (Seq (Str '' '') (Seq properWord (Seq (Str '' '') (Seq properWord Eol)))),
      Seq capsWord (Seq (Str '' '') (Seq capsWord (Seq (Str '' '') (Seq capsWord Eol))))]"

fun pattern_loop :: "string \<Rightarrow> re list \<Rightarrow> string list" where
  "pattern_loop combined [] = []"
| "pattern_loop combined (regex # rest) =
     (if test_from_start regex combined \<and> length combined \<le> 35 then [combined]
      else pattern_loop combined rest)"

definition extractWithPatternMatching :: "string list \<Rightarrow> string list" where
  "extractWithPatternMatching lines =
     concat (map (\<lambda>i.
       concat (map (\<lambda>j. pattern_loop (arr_join '' '' (arr_slice i j lines)) patterns)
         [i + 1 ..< Suc (min (i + 3) (length lines))]))
       [0 ..< length lines - 1])"

section \<open>The candidate scorer\<close>

text \<open>Every number of the scorer is an integer, so the doubles of the source are exact
  and are modelled by \<open>int\<close>.\<close>

definition positionScore :: "int \<Rightarrow> int" where
  "positionScore position = max 0 (10 - position)"

definition lengthScore :: "string \<Rightarrow> int" where
  "lengthScore nm =
     (let ws = str_split CHR '' '' nm
      in if length ws = 2 then 5
         else if length ws = 3 then 4
         else if length ws = 1 \<and> length nm > 4 then 3
         else 0)"

text \<open>\<open>/^[A-Z]/\<close> and \<open>/^[A-Z\s&\-'\.]+$/\<close>.\<close>

definition capitalStartRegex :: re where
  "capitalStartRegex = Cls upperAZ"

definition allCapsRegex :: re where
  "allCapsRegex =
     Seq (Rep 1 None (upperAZ @ spaceC @
            [(CHR ''&'', CHR ''&''), (CHR ''-'', CHR ''-''), (CHR 0x27, CHR 0x27),
             (CHR ''.'', CHR ''.'')]))
         Eol"

definition formatScore :: "string \<Rightarrow> int" where
  "formatScore nm =
     (if test_from_start capitalStartRegex nm then 2 else 0) +
     (if test_from_start allCapsRegex nm then 3 else 0)"

definition businessKeywords :: "(string \<times> int) list" where
  "businessKeywords =
     [(''coffee'', 7), (''food park'', 8), (''coffee shop'', 7), (''restaurant'', 6),
      (''market'', 5), (''center'', 4), (''plaza'', 4), (''cafe'', 5), (''grill'', 5),
      (''bar'', 4)]"

fun keyword_loop :: "string \<Rightarrow> (string \<times> int) list \<Rightarrow> int" where
  "keyword_loop lowerName [] = 0"
| "keyword_loop lowerName ((word, points) # rest) =
     (if str_includes lowerName word then points else keyword_loop lowerName rest)"

definition keywordScore :: "string \<Rightarrow> int" where
  "keywordScore nm = keyword_loop (toLowerCase nm) businessKeywords"

definition completenessScore :: "string \<Rightarrow> int" where
  "completenessScore nm = (if length nm \<ge> 8 \<and> length nm \<le> 25 then 3 else 0)"

definition scoreBusinessName :: "string \<Rightarrow> int \<Rightarrow> int" where
  "scoreBusinessName nm position =
     (let score0 = positionScore position + lengthScore nm + formatScore nm
                   + keywordScore nm + completenessScore nm;
          score1 = (if length nm < 4 then score0 - 3 else score0);
          score2 = (if length nm > 40 then score1 - 5 else score1)
      in max 0 score2)"

section \<open>The deduplicator\<close>

text \<open>The callback of \<open>unique.some\<close> in \<open>removeSimilarCandidates\<close>: is the new
  candidate contained in, containing, or equal to an accepted one (both lowercased)?\<close>

definition isContained :: "candidate \<Rightarrow> candidate \<Rightarrow> bool" where
  "isContained existing cand =
     (let existingText = toLowerCase (name existing);
          candidateText = toLowerCase (name cand)
      in str_includes existingText candidateText \<or>
         str_includes candidateText existingText \<or>
         existingText = candidateText)"

text \<open>The \<open>for (const candidate of candidates)\<close> loop, with the array \<open>unique\<close> as
  its state.\<close>

fun removeSimilar_loop :: "candidate list \<Rightarrow> candidate list \<Rightarrow> candidate list" where
  "removeSimilar_loop unique [] = unique"
| "removeSimilar_loop unique (c # cs) =
     (let isDuplicate = list_ex (\<lambda>existing. isContained existing c) unique
      in removeSimilar_loop (if \<not> isDuplicate then unique @ [c] else unique) cs)"

definition removeSimilarCandidates :: "candidate list \<Rightarrow> candidate list" where
  "removeSimilarCandidates candidates = removeSimilar_loop [] candidates"

section \<open>The extraction orchestrator\<close>

text \<open>\<open>cleanedLines\<close>: the text split at line feeds, blank lines dropped, then
  preprocessed.\<close>

definition cleanedLines :: "string \<Rightarrow> string list" where
  "cleanedLines text =
     preprocessLines (filter (\<lambda>line. length (str_trim line) > 0) (str_split CHR 0x0A text))"

definition mkCandidate :: "strategy \<Rightarrow> string \<Rightarrow> candidate" where
  "mkCandidate st nm = \<lparr>name = nm, strategy = st, score = 0\<rparr>"

text \<open>\<open>candidates\<close> after the three \<open>push\<close> calls.\<close>

definition generatedCandidates :: "string list \<Rightarrow> candidate list" where
  "generatedCandidates cleaned =
     map (mkCandidate Context) (extractWithBusinessContext cleaned) @
     map (mkCandidate Positional) (extractWithPositionalWeighting cleaned) @
     map (mkCandidate Pattern) (extractWithPatternMatching cleaned)"

text \<open>\<open>cleanedLines.indexOf(candidate.name.split(' ')[0])\<close>.\<close>

definition firstWordIndex :: "string list \<Rightarrow> string \<Rightarrow> int" where
  "firstWordIndex cleaned nm =
     (case str_split CHR '' '' nm of
        [] \<Rightarrow> - 1
      | w # _ \<Rightarrow> arr_indexOf cleaned w)"

text \<open>\<open>candidates\<close> after the scoring loop.\<close>

definition scoredCandidates :: "string list \<Rightarrow> candidate list" where
  "scoredCandidates cleaned =
     map (\<lambda>c. c\<lparr>score := scoreBusinessName (name c) (firstWordIndex cleaned (name c))\<rparr>)
       (generatedCandidates cleaned)"

text \<open>\<open>uniqueCandidates.sort((a, b) => b.score - a.score)\<close>: the scores are integers,
  the comparator is a consistent order, and \<open>Array.prototype.sort\<close> is stable, so the
  result is the one stable arrangement by descending score.\<close>

definition sortByScore :: "candidate list \<Rightarrow> candidate list" where
  "sortByScore cs = sort_key (\<lambda>c. - score c) cs"

text \<open>\<open>uniqueCandidates\<close> after the sort.\<close>

definition rankedCandidates :: "string \<Rightarrow> candidate list" where
  "rankedCandidates text =
     sortByScore (removeSimilarCandidates (scoredCandidates (cleanedLines text)))"

text \<open>\<open>uniqueCandidates.slice(0, 3)\<close> and its names, the value returned.\<close>

definition topCandidates :: "string \<Rightarrow> candidate list" where
  "topCandidates text = arr_slice 0 3 (rankedCandidates text)"

definition extractBusinessNamesWithContext :: "string \<Rightarrow> string list" where
  "extractBusinessNamesWithContext text = map name (topCandidates text)"

section \<open>Numbers of the confidence estimator\<close>

text \<open>
  The confidence estimator computes with non-integer \<open>number\<close>s, which are IEEE 754
  binary64 values. A finite double is modelled by the rational it denotes; an operation
  is the exact operation followed by rounding to the nearest double, ties to the even
  significand. All values of the estimator lie between 0.35 and 1.1, so the exponent range
  (overflow, subnormal numbers) plays no role and is not modelled.

  \<open>binexp x\<close> is the binary exponent of a positive rational: \<open>2 powi binexp x \<le> x\<close> and
  \<open>x < 2 powi (binexp x + 1)\<close>.
\<close>

definition binexp :: "rat \<Rightarrow> int" where
  "binexp x =
     (let (p, q) = quotient_of x; d = bitlen p - bitlen q
      in if 2 powi d \<le> x then d else d - 1)"

definition round_half_even :: "rat \<Rightarrow> int" where
  "round_half_even y =
     (let n = \<lfloor>y\<rfloor>; f = y - of_int n
      in if f < 1 / 2 then n
         else if f > 1 / 2 then n + 1
         else if even n then n else n + 1)"

text \<open>Rounding to 53 significant bits.\<close>

definition rnd :: "rat \<Rightarrow> rat" where
  "rnd x =
     (if x = 0 then 0
      else (let a = \<bar>x\<bar>; u = 2 powi (binexp a - 52)
            in sgn x * of_int (round_half_even (a / u)) * u))"

text \<open>The decimal literal \<open>m / 10 ^ k\<close> (\<open>dec 95 2\<close> is \<open>0.95\<close>), sum and product.\<close>

definition dec :: "int \<Rightarrow> nat \<Rightarrow> rat" where
  "dec m k = rnd (of_int m / 10 ^ k)"

definition fl_add :: "rat \<Rightarrow> rat \<Rightarrow> rat" where
  "fl_add x y = rnd (x + y)"

definition fl_mul :: "rat \<Rightarrow> rat \<Rightarrow> rat" where
  "fl_mul x y = rnd (x * y)"

section \<open>The output record\<close>

datatype level = High | Medium | Low

record confidence_levels =
  businessName :: level
  address :: level
  phone :: level

record ExtractedText =
  businessNames :: "string list"
  addresses :: "string list"
  phoneNumbers :: "string list"
  websites :: "string list"
  emails :: "string list"
  otherText :: "string list"
  confidence :: confidence_levels

section \<open>The confidence estimator\<close>

text \<open>An OCR detection; only its \<open>description\<close> is read (it may be absent).\<close>

record detection =
  description :: "string option"

text \<open>\<open>s.split(/\s+/)\<close>: the pieces between maximal runs of white space, with an empty
  piece before a leading and after a trailing run.\<close>

function str_split_ws :: "string \<Rightarrow> string list" where
  "str_split_ws [] = [[]]"
| "str_split_ws (c # s) =
     (if isSpace c then [] # str_split_ws (dropWhile isSpace s)
      else (case str_split_ws s of
              [] \<Rightarrow> [[c]]
            | w # ws \<Rightarrow> (c # w) # ws))"
  by pat_completeness auto
termination
  by (relation "measure length") (auto simp: less_Suc_eq_le length_dropWhile_le)

text \<open>\<open>detections[0]?.description || ''\<close> and the array \<open>words\<close>.\<close>

definition fullTextOf :: "detection list \<Rightarrow> string" where
  "fullTextOf detections =
     (case detections of
        [] \<Rightarrow> []
      | d # _ \<Rightarrow> (case description d of None \<Rightarrow> [] | Some t \<Rightarrow> t))"

definition wordsOf :: "detection list \<Rightarrow> string list" where
  "wordsOf detections = filter (\<lambda>w. length w > 0) (str_split_ws (fullTextOf detections))"

text \<open>\<open>finalConfidence\<close>.\<close>

definition finalConfidence :: "detection list \<Rightarrow> string list \<Rightarrow> rat" where
  "finalConfidence detections names =
     (let c0 = dec 5 1;
          c1 = (if length detections > 5 then fl_add c0 (dec 1 1) else c0);
          c2 = (if length detections > 10 then fl_add c1 (dec 1 1) else c1);
          c3 = (if length names > 0 then fl_add c2 (dec 2 1) else c2);
          c4 = (if length names > 1 then fl_add c3 (dec 1 1) else c3);
          c5 = (if length (wordsOf detections) \<ge> 5 then fl_add c4 (dec 1 1) else c4)
      in min (dec 95 2) c5)"

definition getLevel :: "rat \<Rightarrow> level" where
  "getLevel s = (if s > dec 7 1 then High else if s > dec 5 1 then Medium else Low)"

definition calculateSmartConfidence :: "detection list \<Rightarrow> string list \<Rightarrow> confidence_levels" where
  "calculateSmartConfidence detections names =
     (let fc = finalConfidence detections names
      in \<lparr>businessName = getLevel fc,
          address = getLevel (fl_mul fc (dec 8 1)),
          phone = getLevel (fl_mul fc (dec 7 1))\<rparr>)"

section \<open>The field extractors\<close>

fun alt_of :: "string list \<Rightarrow> re" where
  "alt_of [] = Str []"
| "alt_of [w] = Str w"
| "alt_of (w # v # ws) = Alt (Str w) (alt_of (v # ws))"

definition digit09 :: cclass where
  "digit09 = [(CHR ''0'', CHR ''9'')]"

definition sepC :: cclass where
  "sepC = [(CHR ''-'', CHR ''-''), (CHR ''.'', CHR ''.'')] @ spaceC"

definition alnumC :: cclass where
  "alnumC = [(CHR ''a'', CHR ''z''), (CHR ''A'', CHR ''Z''), (CHR ''0'', CHR ''9'')]"

text \<open>\<open>/\d+\s+[A-Za-z\s]+(?:Street|St|Avenue|Ave|Road|Rd|Boulevard|Blvd|Lane|Ln|Drive|Dr|Way|Court|Ct)/gi\<close>\<close>

definition addressRegex :: re where
  "addressRegex =
     Seq (Rep 1 None digitC)
       (Seq (Rep 1 None spaceC)
         (Seq (Rep 1 None ([(CHR ''A'', CHR ''Z''), (CHR ''a'', CHR ''z'')] @ spaceC))
           (alt_of [''Street'', ''St'', ''Avenue'', ''Ave'', ''Road'', ''Rd'', ''Boulevard'',
              ''Blvd'', ''Lane'', ''Ln'', ''Drive'', ''Dr'', ''Way'', ''Court'', ''Ct''])))"

text \<open>\<open>/(?:\+?1[-.\s]?)?\(?([0-9]{3})\)?[-.\s]?([0-9]{3})[-.\s]?([0-9]{4})/g\<close>; the
  capture groups do not change what \<open>match\<close> returns under the flag \<open>g\<close>.\<close>

definition phoneRegex :: re where
  "phoneRegex =
     Seq (Opt (Seq (Opt (Str ''+'')) (Seq (Str ''1'') (Opt (Cls sepC)))))
       (Seq (Opt (Str ''(''))
         (Seq (Rep 3 (Some 3) digit09)
           (Seq (Opt (Str '')''))
             (Seq (Opt (Cls sepC))
               (Seq (Rep 3 (Some 3) digit09)
                 (Seq (Opt (Cls sepC))
                   (Rep 4 (Some 4) digit09)))))))"

text \<open>\<open>/(?:https?:\/\/)?(?:www\.)?[a-zA-Z0-9][a-zA-Z0-9-]{1,61}[a-zA-Z0-9]\.[a-zA-Z]{2,}/g\<close>\<close>

definition websiteRegex :: re where
  "websiteRegex =
     Seq (Opt (Seq (Str ''http'') (Seq (Opt (Str ''s'')) (Str ''://''))))
       (Seq (Opt (Str ''www.''))
         (Seq (Cls alnumC)
           (Seq (Rep 1 (Some 61) (alnumC @ [(CHR ''-'', CHR ''-'')]))
             (Seq (Cls alnumC)
               (Seq (Str ''.'')
                 (Rep 2 None letterC))))))"

text \<open>\<open>/[a-zA-Z0-9._%+-]+@[a-zA-Z0-9.-]+\.[a-zA-Z]{2,}/g\<close>\<close>

definition emailRegex :: re where
  "emailRegex =
     Seq (Rep 1 None (alnumC @ [(CHR ''.'', CHR ''.''), (CHR ''_'', CHR ''_''), (CHR ''%'', CHR ''%''),
                                (CHR ''+'', CHR ''+''), (CHR ''-'', CHR ''-'')]))
       (Seq (Str ''@'')
         (Seq (Rep 1 None (alnumC @ [(CHR ''.'', CHR ''.''), (CHR ''-'', CHR ''-'')]))
           (Seq (Str ''.'')
             (Rep 2 None letterC))))"

text \<open>\<open>text.match(regex) || []\<close>.\<close>

definition extractAddresses :: "string \<Rightarrow> string list" where
  "extractAddresses text =
     (case str_match_g True addressRegex text of None \<Rightarrow> [] | Some matches \<Rightarrow> matches)"

definition extractPhoneNumbers :: "string \<Rightarrow> string list" where
  "extractPhoneNumbers text =
     (case str_match_g False phoneRegex text of None \<Rightarrow> [] | Some matches \<Rightarrow> matches)"

definition extractWebsites :: "string \<Rightarrow> string list" where
  "extractWebsites text =
     (case str_match_g False websiteRegex text of None \<Rightarrow> [] | Some matches \<Rightarrow> matches)"

definition extractEmails :: "string \<Rightarrow> string list" where
  "extractEmails text =
     (case str_match_g False emailRegex text of None \<Rightarrow> [] | Some matches \<Rightarrow> matches)"

section \<open>The entry point\<close>

text \<open>
  \<open>extractTextWithEnhancedVision\<close>, from the detections the OCR service returned
  (\<open>result.textAnnotations || []\<close>). With no detection the function throws; the \<open>catch\<close>
  block throws the one error of the function again.
\<close>

datatype error = FailedToExtractText

definition extractTextWithEnhancedVision :: "detection list \<Rightarrow> error + ExtractedText" where
  "extractTextWithEnhancedVision detections =
     (if length detections = 0 then Inl FailedToExtractText
      else (let fullText = fullTextOf detections;
                names = extractBusinessNamesWithContext fullText;
                addrs = extractAddresses fullText;
                phones = extractPhoneNumbers fullText;
                sites = extractWebsites fullText;
                mails = extractEmails fullText;
                other = filter (\<lambda>line.
                          length (str_trim line) > 0 \<and>
                          \<not> list_ex (\<lambda>p. str_includes line p) phones \<and>
                          \<not> list_ex (\<lambda>w. str_includes line w) sites \<and>
                          \<not> list_ex (\<lambda>e. str_includes line e) mails)
                          (str_split CHR 0x0A fullText)
            in Inr \<lparr>businessNames = names, addresses = addrs, phoneNumbers = phones,
                    websites = sites, emails = mails, otherText = other,
                    confidence = calculateSmartConfidence detections names\<rparr>))"

section \<open>The confirmation gate of the caller\<close>

definition genericNames :: "string list" where
  "genericNames = [''business'', ''company'', ''store'', ''shop'']"

text \<open>\<open>shouldRequestConfirmation\<close>, with its three early returns.
  \<open>textData.businessNames[0]?.toLowerCase() || ''\<close> is the empty string for an empty
  list.\<close>

definition shouldRequestConfirmation :: "ExtractedText \<Rightarrow> bool" where
  "shouldRequestConfirmation textData =
     (if businessName (confidence textData) = Low then True
      else if businessNames textData = [] then True
      else (let firstBusinessName =
                  (case businessNames textData of [] \<Rightarrow> [] | n # _ \<Rightarrow> toLowerCase n)
            in if list_ex (\<lambda>generic. str_includes firstBusinessName generic) genericNames \<and>
                  length firstBusinessName < 10
               then True
               else False))"

text \<open>What \<open>processImage\<close> does once the extracted text has arrived: show the
  confirmation step, or call \<open>continueProcessing\<close> with \<open>businessNames[0]\<close>
  (\<open>undefined\<close>, here \<open>None\<close>, for an empty list).\<close>

datatype gate_outcome = RequestConfirmation | ContinueProcessing "string option"

definition processImage_gate :: "ExtractedText \<Rightarrow> gate_outcome" where
  "processImage_gate textData =
     (let needsConfirmation = shouldRequestConfirmation textData
      in if needsConfirmation then RequestConfirmation
         else ContinueProcessing
                (case businessNames textData of [] \<Rightarrow> None | n # _ \<Rightarrow> Some n))"


section \<open>The places lookup\<close>

text \<open>
  A place record of the lookup service, as far as \<open>searchBusiness\<close> reads or copies
  it. \<open>undefined\<close> fields are \<open>None\<close>.
\<close>

record place =
  place_id :: string
  place_name :: string
  formatted_address :: "string option"
  geometry :: "(rat \<times> rat) option"
  types :: "string list option"
  rating :: "rat option"
  user_ratings_total :: "nat option"
  business_status :: "string option"
  international_phone_number :: "string option"
  website :: "string option"
  opening_hours :: "string list option"
  price_level :: "nat option"

text \<open>The outcome of \<open>await fetch(url)\<close> followed by \<open>await response.json()\<close>: the
  promise of \<open>fetch\<close> rejects (a network failure), or a response arrives with its flag
  \<open>ok\<close> and a body that parses (\<open>Some\<close>) or does not (\<open>None\<close>, \<open>json()\<close> rejects).\<close>

datatype 'a fetched = Rejected | Response bool "'a option"

record search_data =
  search_status :: string
  search_results :: "place list option"

record details_data =
  details_status :: string
  details_result :: "place option"

text \<open>The world \<open>searchBusiness\<close> runs in: the configured key, and what the two
  endpoints answer to a query and to a place identifier.\<close>

record places_world =
  api_key :: "string option"
  text_search :: "string \<Rightarrow> search_data fetched"
  place_details :: "string \<Rightarrow> details_data fetched"

text \<open>\<open>fallbackResult\<close>: the seven fields copied from \<open>bestMatch\<close>.\<close>

definition fallbackResult :: "place \<Rightarrow> place" where
  "fallbackResult bestMatch =
     \<lparr>place_id = place_id bestMatch,
      place_name = place_name bestMatch,
      formatted_address = formatted_address bestMatch,
      geometry = geometry bestMatch,
      types = types bestMatch,
      rating = rating bestMatch,
      user_ratings_total = user_ratings_total bestMatch,
      business_status = None,
      international_phone_number = None,
      website = None,
      opening_hours = None,
      price_level = None\<rparr>"

text \<open>
  \<open>searchBusiness\<close>. The result \<open>None\<close> is the \<open>null\<close> of the source. Every exception
  thrown inside the \<open>try\<close> block (a rejected \<open>fetch\<close>, a body that is not JSON, a
  property read on an absent \<open>result\<close>) reaches the one \<open>catch\<close>, which returns \<open>null\<close>.
\<close>

definition searchBusiness :: "places_world \<Rightarrow> string \<Rightarrow> string option \<Rightarrow> place option" where
  "searchBusiness w businessName_arg address_arg =
     (let query = (case address_arg of None \<Rightarrow> businessName_arg
                   | Some a \<Rightarrow> if a = [] then businessName_arg else businessName_arg @ '' '' @ a)
      in case api_key w of
           None \<Rightarrow> None
         | Some key \<Rightarrow>
             if key = [] then None
             else (case text_search w query of
               Rejected \<Rightarrow> None
             | Response ok body \<Rightarrow>
                 if \<not> ok then None
                 else (case body of
                   None \<Rightarrow> None
                 | Some searchData \<Rightarrow>
                     if search_status searchData \<noteq> ''OK'' then None
                     else (case search_results searchData of
                       None \<Rightarrow> None
                     | Some [] \<Rightarrow> None
                     | Some (bestMatch # _) \<Rightarrow>
                         (case place_details w (place_id bestMatch) of
                            Rejected \<Rightarrow> None
                          | Response dok dbody \<Rightarrow>
                              if \<not> dok then Some (fallbackResult bestMatch)
                              else (case dbody of
                                None \<Rightarrow> None
                              | Some detailsData \<Rightarrow>
                                  if details_status detailsData \<noteq> ''OK'' then Some bestMatch
                                  else details_result detailsData))))))"

section \<open>Notions used to state the properties\<close>

text \<open>The joins, with single spaces, of every window of one to three consecutive
  elements of a list of lines.\<close>

definition windows :: "string list \<Rightarrow> string list" where
  "windows ls =
     concat (map (\<lambda>i. map (\<lambda>j. arr_join '' '' (arr_slice i j ls))
                          [i + 1 ..< Suc (min (i + 3) (length ls))])
       [0 ..< length ls])"

text \<open>The spans \<open>(start, length)\<close> of the matches that \<^const>\<open>match_all\<close> reports, by
  the same scan with the offset into the whole text carried along.\<close>

function match_spans :: "bool \<Rightarrow> re \<Rightarrow> nat \<Rightarrow> string \<Rightarrow> (nat \<times> nat) list" where
  "match_spans ci r off s =
     (case match_len ci r s of
        None \<Rightarrow> (if s = [] then [] else match_spans ci r (off + 1) (tl s))
      | Some n \<Rightarrow> (off, n) # (if s = [] then []
                              else match_spans ci r (off + max 1 n) (drop (max 1 n) s)))"
  by pat_completeness auto
termination
  by (relation "measure (\<lambda>(ci, r, off, s). length s)") auto

declare match_spans.simps [simp del]

definition substring_at :: "string \<Rightarrow> nat \<times> nat \<Rightarrow> string" where
  "substring_at text = (\<lambda>(i, n). take n (drop i text))"

text \<open>A lower bound of the length of every match of an expression.\<close>

fun min_len :: "re \<Rightarrow> nat" where
  "min_len (Str l) = length l"
| "min_len (Cls k) = 1"
| "min_len (Rep m n k) = m"
| "min_len (Opt r) = 0"
| "min_len (Seq a b) = min_len a + min_len b"
| "min_len (Alt a b) = min (min_len a) (min_len b)"
| "min_len Eol = 0"

text \<open>
  A list of spans is a leftmost scan of a text when every span lies in the text and is
  the match the engine reports at its start; the spans are in increasing order and do
  not overlap; and every position of the text at which the expression has a match is
  the start of a span or lies inside one (so no match is left out but those that an
  earlier reported match overlaps).
\<close>

definition leftmost_scan :: "bool \<Rightarrow> re \<Rightarrow> string \<Rightarrow> (nat \<times> nat) list \<Rightarrow> bool" where
  "leftmost_scan ci r text spans =
     (list_all (\<lambda>(i, n). i + n \<le> length text \<and> match_len ci r (drop i text) = Some n) spans \<and>
      sorted_wrt (\<lambda>(i, n) (j, m). i + max 1 n \<le> j) spans \<and>
      list_all (\<lambda>p. match_len ci r (drop p text) = None \<or>
                    list_ex (\<lambda>(i, n). i \<le> p \<and> p < i + max 1 n) spans)
        [0 ..< Suc (length text)])"

text \<open>What a field extractor with expression \<open>r\<close> and flag \<open>ci\<close> returns: the texts of
  a leftmost scan, none of them empty, and no text at all exactly when the expression
  has no match at any position.\<close>

definition scan_result :: "bool \<Rightarrow> re \<Rightarrow> string \<Rightarrow> string list \<Rightarrow> bool" where
  "scan_result ci r text out =
     (out = map (substring_at text) (match_spans ci r 0 text) \<and>
      leftmost_scan ci r text (match_spans ci r 0 text) \<and>
      list_all (\<lambda>m. m \<noteq> []) out \<and>
      (out = [] \<longleftrightarrow>
         list_all (\<lambda>p. match_len ci r (drop p text) = None) [0 ..< Suc (length text)]))"

text \<open>No candidate of a list is similar to an earlier one.\<close>

abbreviation unrelated :: "candidate list \<Rightarrow> bool" where
  "unrelated xs \<equiv> sorted_wrt (\<lambda>a b. \<not> isContained a b) xs"

text \<open>
  The strings an expression without anchor accepts, as a regular expression is read in a
  textbook: a literal accepts itself (up to case under the flag \<open>i\<close>), a class one
  character of the class, a quantified class a run of its characters of a permitted
  length, \<open>?\<close> the empty string or what its group accepts, a sequence a concatenation, an
  alternation what either branch accepts.
\<close>

inductive accepts :: "bool \<Rightarrow> re \<Rightarrow> string \<Rightarrow> bool" for ci :: bool where
  acc_Str: "list_all2 (chr_eq ci) l w \<Longrightarrow> accepts ci (Str l) w"
| acc_Cls: "in_class ci k c \<Longrightarrow> accepts ci (Cls k) [c]"
| acc_Rep: "list_all (in_class ci k) w \<Longrightarrow> m \<le> length w \<Longrightarrow>
            (case n of None \<Rightarrow> True | Some b \<Rightarrow> length w \<le> b) \<Longrightarrow> accepts ci (Rep m n k) w"
| acc_Opt_skip: "accepts ci (Opt r) []"
| acc_Opt_take: "accepts ci r w \<Longrightarrow> accepts ci (Opt r) w"
| acc_Seq: "accepts ci a u \<Longrightarrow> accepts ci b v \<Longrightarrow> accepts ci (Seq a b) (u @ v)"
| acc_Alt_left: "accepts ci a w \<Longrightarrow> accepts ci (Alt a b) w"
| acc_Alt_right: "accepts ci b w \<Longrightarrow> accepts ci (Alt a b) w"

fun anchor_free :: "re \<Rightarrow> bool" where
  "anchor_free (Str l) = True"
| "anchor_free (Cls k) = True"
| "anchor_free (Rep m n k) = True"
| "anchor_free (Opt r) = anchor_free r"
| "anchor_free (Seq a b) = (anchor_free a \<and> anchor_free b)"
| "anchor_free (Alt a b) = (anchor_free a \<and> anchor_free b)"
| "anchor_free Eol = False"

text \<open>The confidence score and the level in exact arithmetic, in the words of the
  specification: from the number of detections, of business names and of tokens.\<close>

definition exact_score :: "nat \<Rightarrow> nat \<Rightarrow> nat \<Rightarrow> rat" where
  "exact_score d n w =
     min (95 / 100)
       (1 / 2 + (if d > 5 then 1 / 10 else 0) + (if d > 10 then 1 / 10 else 0)
        + (if n \<ge> 1 then 2 / 10 else 0) + (if n > 1 then 1 / 10 else 0)
        + (if w \<ge> 5 then 1 / 10 else 0))"

definition exact_level :: "rat \<Rightarrow> level" where
  "exact_level s = (if s > 7 / 10 then High else if s > 1 / 2 then Medium else Low)"

text \<open>A place, and a world in which the text search succeeds with this place and the
  request for its details fails on the network.\<close>

definition joes :: place where
  "joes = \<lparr>place_id = ''p1'', place_name = ''Joe's Coffee'',
     formatted_address = Some ''12 Main St'', geometry = Some (40, - 74),
     types = Some [''cafe''], rating = Some 4, user_ratings_total = Some 10,
     business_status = Some ''OPERATIONAL'', international_phone_number = None,
     website = None, opening_hours = None, price_level = None\<rparr>"

definition details_down :: places_world where
  "details_down =
     \<lparr>api_key = Some ''k'',
      text_search = (\<lambda>q. Response True (Some \<lparr>search_status = ''OK'', search_results = Some [joes]\<rparr>)),
      place_details = (\<lambda>p. Rejected)\<rparr>"

section \<open>Properties of the deduplicator\<close>

lemma str_includes_sublist: "str_includes s t = sublist t s"
  by (induction s) (auto simp: sublist_Cons_right)

lemma isContained_sym: "isContained a b = isContained b a"
  by (auto simp: isContained_def Let_def)

lemma removeSimilar_loop_unrelated:
  "unrelated unique \<Longrightarrow> unrelated (removeSimilar_loop unique cs)"
proof (induction cs arbitrary: unique)
  case Nil
  then show ?case by simp
next
  case (Cons c cs)
  show ?case
  proof (cases "list_ex (\<lambda>existing. isContained existing c) unique")
    case True
    with Cons show ?thesis by simp
  next
    case False
    then have "unrelated (unique @ [c])"
      using Cons.prems by (auto simp: sorted_wrt_append list_ex_iff)
    from Cons.IH [OF this] False show ?thesis by simp
  qed
qed


lemma removeSimilarCandidates_unrelated: "unrelated (removeSimilarCandidates cs)"
  by (simp add: removeSimilarCandidates_def removeSimilar_loop_unrelated)


section \<open>Properties of the orchestrator\<close>

lemma sorted_wrt_insort_key_sym:
  assumes sym: "\<And>a b. P a b = P b a"
  shows "sorted_wrt P (insort_key f x xs) = sorted_wrt P (x # xs)"
proof (induction xs)
  case Nil
  show ?case by simp
next
  case (Cons y ys)
  show ?case
    using Cons.IH sym by (auto simp: set_insort_key)
qed

lemma sorted_wrt_sort_key_sym:
  assumes sym: "\<And>a b. P a b = P b a"
  shows "sorted_wrt P (sort_key f xs) = sorted_wrt P xs"
proof (induction xs)
  case Nil
  show ?case by simp
next
  case (Cons x xs)
  have "sorted_wrt P (sort_key f (x # xs)) = sorted_wrt P (x # sort_key f xs)"
    by (simp add: sort_key_simps sorted_wrt_insort_key_sym [of P, OF sym])
  also have "\<dots> = sorted_wrt P (x # xs)"
    using Cons.IH by simp
  finally show ?case .
qed

lemma filter_take_prefix: "prefix (filter P (take n xs)) (filter P xs)"
proof -
  have "filter P xs = filter P (take n xs) @ filter P (drop n xs)"
    by (metis append_take_drop_id filter_append)
  then show ?thesis by (simp add: prefix_def)
qed

lemma sortByScore_descending: "sorted_wrt (\<lambda>a b. score a \<ge> score b) (sortByScore cs)"
proof -
  have "sorted (map (\<lambda>c. - score c) (sortByScore cs))"
    by (simp add: sortByScore_def)
  then show ?thesis
    by (simp add: sorted_map)
qed

lemma sortByScore_stable:
  "filter (\<lambda>c. score c = k) (sortByScore cs) = filter (\<lambda>c. score c = k) cs"
  using sort_key_stable [of "\<lambda>c. - score c" "- k" cs]
  by (simp add: sortByScore_def)

lemma sortByScore_unrelated: "unrelated (sortByScore cs) = unrelated cs"
  unfolding sortByScore_def
  by (rule sorted_wrt_sort_key_sym) (simp add: isContained_sym)

lemma not_isContained_names:
  "\<not> isContained a b \<Longrightarrow>
     \<not> str_includes (toLowerCase (name a)) (toLowerCase (name b)) \<and>
     \<not> str_includes (toLowerCase (name b)) (toLowerCase (name a))"
  by (simp add: isContained_def Let_def)

text \<open>
  C1. For every text, the names returned by \<open>extractBusinessNamesWithContext\<close> are the
  names of \<open>topCandidates\<close>, at most three; these candidates are in descending order
  of score; among candidates of one score they keep the order they have after
  deduplication (for every score \<open>k\<close>, the top candidates of score \<open>k\<close> are an initial
  part of the deduplicated candidates of score \<open>k\<close>); and for any two returned names,
  neither lowercased name is a substring of the other.
\<close>

theorem businessNames_invariant:
  "extractBusinessNamesWithContext text = map name (topCandidates text) \<and>
   length (extractBusinessNamesWithContext text) \<le> 3 \<and>
   sorted_wrt (\<lambda>a b. score a \<ge> score b) (topCandidates text) \<and>
   (\<forall>k. prefix (filter (\<lambda>c. score c = k) (topCandidates text))
          (filter (\<lambda>c. score c = k) (removeSimilarCandidates (scoredCandidates (cleanedLines text))))) \<and>
   sorted_wrt (\<lambda>a b. \<not> str_includes (toLowerCase a) (toLowerCase b) \<and>
                     \<not> str_includes (toLowerCase b) (toLowerCase a))
     (extractBusinessNamesWithContext text)"
proof -
  let ?u = "removeSimilarCandidates (scoredCandidates (cleanedLines text))"
  have top: "topCandidates text = take 3 (sortByScore ?u)"
    by (simp add: topCandidates_def arr_slice_def rankedCandidates_def)
  have names: "extractBusinessNamesWithContext text = map name (topCandidates text)"
    by (simp add: extractBusinessNamesWithContext_def)
  have len: "length (extractBusinessNamesWithContext text) \<le> 3"
    by (simp add: names top)
  have desc: "sorted_wrt (\<lambda>a b. score a \<ge> score b) (topCandidates text)"
    unfolding top by (rule sorted_wrt_take) (rule sortByScore_descending)
  have stable: "prefix (filter (\<lambda>c. score c = k) (topCandidates text))
                  (filter (\<lambda>c. score c = k) ?u)" for k
    using filter_take_prefix [of "\<lambda>c. score c = k" 3 "sortByScore ?u"]
    by (simp add: top sortByScore_stable)
  have "unrelated (topCandidates text)"
    unfolding top
    by (rule sorted_wrt_take) (simp add: sortByScore_unrelated removeSimilarCandidates_unrelated)
  then have "sorted_wrt (\<lambda>a b. \<not> str_includes (toLowerCase (name a)) (toLowerCase (name b)) \<and>
                     \<not> str_includes (toLowerCase (name b)) (toLowerCase (name a))) (topCandidates text)"
    by (rule sorted_wrt_mono_rel [rotated]) (simp add: not_isContained_names)
  then have sub: "sorted_wrt (\<lambda>a b. \<not> str_includes (toLowerCase a) (toLowerCase b) \<and>
                     \<not> str_includes (toLowerCase b) (toLowerCase a))
     (extractBusinessNamesWithContext text)"
    by (simp add: names sorted_wrt_map)
  from names len desc stable sub show ?thesis by blast
qed

theorem businessNames_invariant_witness:
  "extractBusinessNamesWithContext (''Blue Bar'' @ [CHR 0x0A] @ ''Open Daily'') =
     [''Blue Bar'', ''Open Daily''] \<and>
   sorted_wrt (\<lambda>a b. \<not> str_includes (toLowerCase a) (toLowerCase b) \<and>
                     \<not> str_includes (toLowerCase b) (toLowerCase a))
     [''Blue Bar'', ''Open Daily'']"
proof -
  let ?t = "''Blue Bar'' @ [CHR 0x0A] @ ''Open Daily''"
  have e: "extractBusinessNamesWithContext ?t = [''Blue Bar'', ''Open Daily'']"
    by code_simp
  note businessNames_invariant [of ?t, THEN conjunct2, THEN conjunct2, THEN conjunct2,
      THEN conjunct2]
  then have "sorted_wrt (\<lambda>a b. \<not> str_includes (toLowerCase a) (toLowerCase b) \<and>
                     \<not> str_includes (toLowerCase b) (toLowerCase a))
          [''Blue Bar'', ''Open Daily'']"
    by (simp only: e)
  with e show ?thesis by (rule conjI)
qed

text \<open>The signboard of the specification: the three lines are kept, give six candidates,
  three of them survive deduplication, and they are returned by descending score
  (30, 21, 18).\<close>

lemma orchestrator_example:
  "extractBusinessNamesWithContext
     (''JOE'S COFFEE SHOP'' @ [CHR 0x0A] @ ''123 Main Street'' @ [CHR 0x0A] @ ''Open Daily'') =
     [''JOE'S COFFEE SHOP'', ''Open Daily'', ''123 Main Street'']"
  by code_simp

section \<open>The position passed to the scorer\<close>

text \<open>\<open>split\<close> never returns an empty array, so \<open>split(' ')[0]\<close> is always a string.\<close>

lemma str_split_nonempty: "str_split sep s \<noteq> []"
  by (induction s) (auto split: list.splits)

lemma firstWordIndex_lookup:
  "firstWordIndex cleaned nm = arr_indexOf cleaned (hd (str_split CHR '' '' nm))"
  using str_split_nonempty [of "CHR '' ''" nm]
  by (cases "str_split CHR '' '' nm") (simp_all add: firstWordIndex_def)

lemma arr_indexOf_lower: "- 1 \<le> arr_indexOf xs x"
  by (induction xs) (auto simp: Let_def)

lemma arr_indexOf_absent: "arr_indexOf xs x = - 1 \<longleftrightarrow> x \<notin> set xs"
proof (induction xs)
  case Nil
  show ?case by simp
next
  case (Cons y ys)
  from arr_indexOf_lower [of ys x] Cons.IH show ?case
    by (auto simp: Let_def)
qed

lemma arr_indexOf_present:
  "x \<in> set xs \<Longrightarrow> 0 \<le> arr_indexOf xs x \<and> nat (arr_indexOf xs x) < length xs \<and>
     xs ! nat (arr_indexOf xs x) = x"
proof (induction xs)
  case Nil
  then show ?case by simp
next
  case (Cons y ys)
  show ?case
  proof (cases "y = x")
    case True
    then show ?thesis by simp
  next
    case False
    with Cons.prems have "x \<in> set ys" by simp
    from Cons.IH [OF this] False show ?thesis
      by (simp add: Let_def nat_add_distrib)
  qed
qed

lemma absent_first_word_position:
  "hd (str_split CHR '' '' nm) \<notin> set cleaned \<Longrightarrow>
     firstWordIndex cleaned nm = - 1 \<and> positionScore (firstWordIndex cleaned nm) = 11"
proof -
  assume "hd (str_split CHR '' '' nm) \<notin> set cleaned"
  then have "arr_indexOf cleaned (hd (str_split CHR '' '' nm)) = - 1"
    using arr_indexOf_absent [of cleaned "hd (str_split CHR '' '' nm)"] by blast
  then show ?thesis
    by (simp add: firstWordIndex_lookup positionScore_def)
qed

text \<open>
  C2. The single line \<open>Joe's Coffee\<close> is kept by the preprocessor and is the name of
  both candidates (one of the context generator, one of the positional generator). Its
  first word \<open>Joe's\<close> is no line of the filtered list, so \<open>indexOf\<close> gives \<open>-1\<close>; this
  \<open>-1\<close> is the position passed to the scorer, the position component is
  \<open>max 0 (10 - (-1)) = 11\<close>, and the score is \<open>11 + 5 + 2 + 7 + 3 = 28\<close>.
\<close>

theorem absent_first_word_scores_eleven:
  "cleanedLines ''Joe's Coffee'' = [''Joe's Coffee''] \<and>
   firstWordIndex [''Joe's Coffee''] ''Joe's Coffee'' = - 1 \<and>
   positionScore (firstWordIndex [''Joe's Coffee''] ''Joe's Coffee'') = 11 \<and>
   map (\<lambda>c. (name c, strategy c, score c)) (scoredCandidates (cleanedLines ''Joe's Coffee'')) =
     [(''Joe's Coffee'', Context, 28), (''Joe's Coffee'', Positional, 28)] \<and>
   extractBusinessNamesWithContext ''Joe's Coffee'' = [''Joe's Coffee'']"
  by code_simp

section \<open>Properties of the positional generator\<close>

lemma slice1: "i < length xs \<Longrightarrow> arr_slice i (i + 1) xs = [xs ! i]"
proof -
  assume "i < length xs"
  then have "drop i xs = xs ! i # drop (Suc i) xs"
    by (simp add: Cons_nth_drop_Suc)
  then show ?thesis by (simp add: arr_slice_def)
qed

lemma slice2: "i + 1 < length xs \<Longrightarrow> arr_slice i (i + 2) xs = [xs ! i, xs ! (i + 1)]"
proof -
  assume "i + 1 < length xs"
  then have "drop i xs = xs ! i # xs ! (i + 1) # drop (Suc (Suc i)) xs"
    by (simp add: Cons_nth_drop_Suc)
  then show ?thesis by (simp add: arr_slice_def numeral_2_eq_2)
qed

lemma slice3:
  "i + 2 < length xs \<Longrightarrow> arr_slice i (i + 3) xs = [xs ! i, xs ! (i + 1), xs ! (i + 2)]"
proof -
  assume "i + 2 < length xs"
  then have "drop i xs = xs ! i # xs ! (i + 1) # xs ! (i + 2) # drop (Suc (Suc (Suc i))) xs"
    by (simp add: Cons_nth_drop_Suc)
  then show ?thesis by (simp add: arr_slice_def numeral_3_eq_3)
qed

lemma positional_step_windows:
  assumes "i < length lines"
  shows "set (positional_step lines i) =
     {c. \<exists>k. i + k \<le> length lines \<and> c = arr_join '' '' (arr_slice i (i + k) lines) \<and>
        (k = 1 \<and> 4 \<le> length c \<and> length c \<le> 15 \<or> k = 2 \<and> length c \<le> 30 \<or> k = 3 \<and> length c \<le> 40)}"
  (is "?L = ?R")
proof (rule set_eqI)
  fix c
  have one: "arr_join '' '' (arr_slice i (i + 1) lines) = lines ! i"
    using slice1 [OF assms] by simp
  have two: "arr_join '' '' (arr_slice i (i + 2) lines) = lines ! i @ '' '' @ lines ! (i + 1)"
    if "i + 2 \<le> length lines"
    using slice2 [of i lines] that by simp
  have three: "arr_join '' '' (arr_slice i (i + 3) lines) =
      lines ! i @ '' '' @ lines ! (i + 1) @ '' '' @ lines ! (i + 2)"
    if "i + 3 \<le> length lines"
    using slice3 [of i lines] that by simp
  show "c \<in> ?L \<longleftrightarrow> c \<in> ?R"
  proof
    assume "c \<in> ?L"
    then consider
        (a) "c = lines ! i" "4 \<le> length c" "length c \<le> 15"
      | (b) "i + 2 \<le> length lines" "c = lines ! i @ '' '' @ lines ! (i + 1)" "length c \<le> 30"
      | (c) "i + 3 \<le> length lines" "c = lines ! i @ '' '' @ lines ! (i + 1) @ '' '' @ lines ! (i + 2)"
            "length c \<le> 40"
      by (auto simp: positional_step_def Let_def split: if_splits)
    then show "c \<in> ?R"
    proof cases
      case a
      with assms one show ?thesis by (intro CollectI exI [of _ 1]) simp
    next
      case b
      with two show ?thesis by (intro CollectI exI [of _ 2]) simp
    next
      case c
      with three show ?thesis by (intro CollectI exI [of _ 3]) simp
    qed
  next
    assume "c \<in> ?R"
    then obtain k where k: "i + k \<le> length lines" "c = arr_join '' '' (arr_slice i (i + k) lines)"
      "k = 1 \<and> 4 \<le> length c \<and> length c \<le> 15 \<or> k = 2 \<and> length c \<le> 30 \<or> k = 3 \<and> length c \<le> 40"
      by blast
    from k(3) show "c \<in> ?L"
    proof (elim disjE conjE)
      assume "k = 1" "4 \<le> length c" "length c \<le> 15"
      with k one show ?thesis by (simp add: positional_step_def Let_def)
    next
      assume "k = 2" "length c \<le> 30"
      with k two show ?thesis by (auto simp: positional_step_def Let_def)
    next
      assume "k = 3" "length c \<le> 40"
      with k three show ?thesis by (auto simp: positional_step_def Let_def)
    qed
  qed
qed

text \<open>
  C3, as stated, fails: with seven lines the round for index 4 pushes the join of
  lines 4 and 5, and line 5 is not among the first five lines.
\<close>

theorem positional_uses_sixth_line:
  "''ee ff'' \<in> set (extractWithPositionalWeighting
       [''aa'', ''bb'', ''cc'', ''dd'', ''ee'', ''ff'', ''gg'']) \<and>
   ''ee ff'' \<notin> set (windows (take (min 5 (length [''aa'', ''bb'', ''cc'', ''dd'', ''ee'', ''ff'', ''gg'']))
       [''aa'', ''bb'', ''cc'', ''dd'', ''ee'', ''ff'', ''gg'']))"
  by code_simp

text \<open>
  C3, amended. The candidates of the positional generator are exactly the joins of a
  window of \<open>k\<close> consecutive lines, \<open>k\<close> from 1 to 3, that lies within the list and
  starts at an index \<open>i\<close> below \<open>min 5 lineCount\<close> (so its later lines may lie beyond the
  first five), where the single line has a length from 4 to 15, the join of two lines a
  length of at most 30, and the join of three lines a length of at most 40.
\<close>

theorem positional_candidates:
  "set (extractWithPositionalWeighting lines) =
     {c. \<exists>i k. i < min 5 (length lines) \<and> i + k \<le> length lines \<and>
          c = arr_join '' '' (arr_slice i (i + k) lines) \<and>
          (k = 1 \<and> 4 \<le> length c \<and> length c \<le> 15 \<or>
           k = 2 \<and> length c \<le> 30 \<or>
           k = 3 \<and> length c \<le> 40)}"
  (is "?L = ?R")
proof (rule set_eqI)
  fix c
  define W where "W i = {c. \<exists>k. i + k \<le> length lines \<and>
        c = arr_join '' '' (arr_slice i (i + k) lines) \<and>
        (k = 1 \<and> 4 \<le> length c \<and> length c \<le> 15 \<or> k = 2 \<and> length c \<le> 30 \<or>
         k = 3 \<and> length c \<le> 40)}" for i
  have step: "set (positional_step lines i) = W i" if "i < min 5 (length lines)" for i
    unfolding W_def using that by (intro positional_step_windows) simp
  have "c \<in> ?L \<longleftrightarrow> (\<exists>i. i < min 5 (length lines) \<and> c \<in> set (positional_step lines i))"
    by (auto simp: extractWithPositionalWeighting_def)
  also have "\<dots> \<longleftrightarrow> (\<exists>i. i < min 5 (length lines) \<and> c \<in> W i)"
    by (simp add: step cong: conj_cong)
  also have "\<dots> \<longleftrightarrow> c \<in> ?R"
    unfolding W_def by blast
  finally show "c \<in> ?L \<longleftrightarrow> c \<in> ?R" .
qed

theorem positional_candidates_witness:
  "''ee ff gg'' \<in> set (extractWithPositionalWeighting
       [''aa'', ''bb'', ''cc'', ''dd'', ''ee'', ''ff'', ''gg''])"
proof -
  let ?L = "[''aa'', ''bb'', ''cc'', ''dd'', ''ee'', ''ff'', ''gg'']"
  have "(4::nat) < min 5 (length ?L) \<and> 4 + 3 \<le> length ?L \<and>
        ''ee ff gg'' = arr_join '' '' (arr_slice 4 (4 + 3) ?L) \<and>
        ((3::nat) = 1 \<and> 4 \<le> length ''ee ff gg'' \<and> length ''ee ff gg'' \<le> 15 \<or>
         (3::nat) = 2 \<and> length ''ee ff gg'' \<le> 30 \<or>
         (3::nat) = 3 \<and> length ''ee ff gg'' \<le> 40)"
    by (simp add: arr_slice_def)
  then have "\<exists>i k. i < min 5 (length ?L) \<and> i + k \<le> length ?L \<and>
        ''ee ff gg'' = arr_join '' '' (arr_slice i (i + k) ?L) \<and>
        (k = 1 \<and> 4 \<le> length ''ee ff gg'' \<and> length ''ee ff gg'' \<le> 15 \<or>
         k = 2 \<and> length ''ee ff gg'' \<le> 30 \<or>
         k = 3 \<and> length ''ee ff gg'' \<le> 40)"
    by blast
  then show ?thesis
    unfolding positional_candidates [of ?L] by blast
qed

section \<open>The confirmation gate\<close>

text \<open>
  C8. For every extracted-text record, \<open>shouldRequestConfirmation\<close> holds if and only if
  the business-name confidence is Low, or there is no business name, or the first
  business name, lowercased, contains one of \<open>business\<close>, \<open>company\<close>, \<open>store\<close>, \<open>shop\<close> and
  is shorter than 10 characters; \<open>processImage\<close> shows the confirmation step exactly
  then, and in every other case continues with the first business name.
\<close>

theorem confirmation_gate:
  "(shouldRequestConfirmation textData \<longleftrightarrow>
      businessName (confidence textData) = Low \<or>
      businessNames textData = [] \<or>
      (\<exists>n rest. businessNames textData = n # rest \<and>
         (\<exists>g \<in> {''business'', ''company'', ''store'', ''shop''}. str_includes (toLowerCase n) g) \<and>
         length (toLowerCase n) < 10)) \<and>
   (processImage_gate textData = RequestConfirmation \<longleftrightarrow> shouldRequestConfirmation textData) \<and>
   (shouldRequestConfirmation textData \<or>
      (\<exists>n rest. businessNames textData = n # rest \<and>
         processImage_gate textData = ContinueProcessing (Some n)))"
proof -
  have c: "shouldRequestConfirmation textData \<longleftrightarrow>
      businessName (confidence textData) = Low \<or>
      businessNames textData = [] \<or>
      (\<exists>n rest. businessNames textData = n # rest \<and>
         (\<exists>g \<in> {''business'', ''company'', ''store'', ''shop''}. str_includes (toLowerCase n) g) \<and>
         length (toLowerCase n) < 10)"
    by (cases "businessNames textData")
       (auto simp: shouldRequestConfirmation_def genericNames_def Let_def)
  have g: "processImage_gate textData = RequestConfirmation \<longleftrightarrow> shouldRequestConfirmation textData"
    by (simp add: processImage_gate_def Let_def)
  have k: "shouldRequestConfirmation textData \<or>
      (\<exists>n rest. businessNames textData = n # rest \<and>
         processImage_gate textData = ContinueProcessing (Some n))"
    by (cases "businessNames textData")
       (auto simp: processImage_gate_def shouldRequestConfirmation_def Let_def)
  from c g k show ?thesis by blast
qed

theorem confirmation_gate_witness:
  "shouldRequestConfirmation
     \<lparr>businessNames = [''The Shop''], addresses = [], phoneNumbers = [],
      websites = [], emails = [], otherText = [],
      confidence = \<lparr>businessName = High, address = Medium, phone = Medium\<rparr>\<rparr> \<and>
   processImage_gate
     \<lparr>businessNames = [''The Shop''], addresses = [], phoneNumbers = [],
      websites = [], emails = [], otherText = [],
      confidence = \<lparr>businessName = High, address = Medium, phone = Medium\<rparr>\<rparr> =
     RequestConfirmation"
proof -
  let ?td = "\<lparr>businessNames = [''The Shop''], addresses = [], phoneNumbers = [],
      websites = [], emails = [], otherText = [],
      confidence = \<lparr>businessName = High, address = Medium, phone = Medium\<rparr>\<rparr>"
  have c: "str_includes (toLowerCase ''The Shop'') ''shop'' \<and> length (toLowerCase ''The Shop'') < 10"
    by code_simp
  then have "\<exists>n rest. businessNames ?td = n # rest \<and>
         (\<exists>g \<in> {''business'', ''company'', ''store'', ''shop''}. str_includes (toLowerCase n) g) \<and>
         length (toLowerCase n) < 10"
    by (intro exI [of _ "''The Shop''"] exI [of _ "[]"]) (simp del: str_includes.simps)
  with confirmation_gate [of ?td] show ?thesis
    by blast
qed

lemma confirmation_gate_examples:
  "processImage_gate
     \<lparr>businessNames = [''Corner Shop'', ''Shop''], addresses = [], phoneNumbers = [],
      websites = [], emails = [], otherText = [],
      confidence = \<lparr>businessName = High, address = Medium, phone = Medium\<rparr>\<rparr> =
     ContinueProcessing (Some ''Corner Shop'')"
  "processImage_gate
     \<lparr>businessNames = [''The Shop''], addresses = [], phoneNumbers = [],
      websites = [], emails = [], otherText = [],
      confidence = \<lparr>businessName = High, address = Medium, phone = Medium\<rparr>\<rparr> =
     RequestConfirmation"
  by code_simp+

section \<open>The places lookup\<close>

text \<open>When the details request is answered with an HTTP error, or with a status other
  than \<open>OK\<close>, \<open>searchBusiness\<close> falls back on the best match of the text search.\<close>

lemma searchBusiness_http_error_falls_back:
  assumes "api_key w = Some key" "key \<noteq> []"
    and "text_search w q = Response True (Some sd)"
    and "search_status sd = ''OK''" "search_results sd = Some (best # others)"
    and "place_details w (place_id best) = Response False dbody"
  shows "searchBusiness w q None = Some (fallbackResult best)"
  using assms by (simp add: searchBusiness_def)

lemma searchBusiness_bad_status_falls_back:
  assumes "api_key w = Some key" "key \<noteq> []"
    and "text_search w q = Response True (Some sd)"
    and "search_status sd = ''OK''" "search_results sd = Some (best # others)"
    and "place_details w (place_id best) = Response True (Some dd)"
    and "details_status dd \<noteq> ''OK''"
  shows "searchBusiness w q None = Some best"
  using assms by (simp add: searchBusiness_def)

text \<open>
  C9. In the world \<open>details_down\<close> the text search for \<open>Joe's Coffee\<close> succeeds with one
  result and the request for the details of that result is rejected (a network
  failure). The rejection is thrown into the one \<open>catch\<close> block of \<open>searchBusiness\<close>,
  and the result is \<open>null\<close>, not a record built from the best match.
\<close>

theorem details_rejection_returns_null:
  "text_search details_down ''Joe's Coffee'' =
     Response True (Some \<lparr>search_status = ''OK'', search_results = Some [joes]\<rparr>) \<and>
   place_details details_down (place_id joes) = Rejected \<and>
   searchBusiness details_down ''Joe's Coffee'' None = None"
  by (simp add: details_down_def searchBusiness_def)

section \<open>Properties of the regular expression scan\<close>

lemma lit_rest_Some:
  "lit_rest ci l s = Some t \<Longrightarrow> length s = length l + length t \<and> suffix t s"
proof (induction ci l s rule: lit_rest.induct)
  case (1 ci s)
  then show ?case by simp
next
  case (2 ci a l)
  then show ?case by simp
next
  case (3 ci a l c s)
  then show ?case
    by (auto split: if_splits simp: suffix_Cons)
qed

lemma ends_suffix:
  "t \<in> set (ends ci r s) \<Longrightarrow> suffix t s \<and> length t + min_len r \<le> length s"
proof (induction r arbitrary: s t)
  case (Str l)
  then have "lit_rest ci l s = Some t"
    by (auto split: option.splits)
  from lit_rest_Some [OF this] show ?case
    by simp
next
  case (Cls k)
  then show ?case
    by (auto split: list.splits if_splits simp: suffix_Cons)
next
  case (Rep m n k)
  then obtain j where j: "t = drop j s" "m \<le> j" "j \<le> length (takeWhile (in_class ci k) s)"
    by (auto simp: Let_def split: option.splits)
  have "length (takeWhile (in_class ci k) s) \<le> length s"
    by (rule length_takeWhile_le)
  with j show ?case
    by (auto simp: suffix_drop)
next
  case (Opt r)
  from Opt.prems have "t \<in> set (ends ci r s) \<or> t = s" by auto
  then show ?case
  proof
    assume "t \<in> set (ends ci r s)"
    from Opt.IH [OF this] show ?thesis by simp
  next
    assume "t = s"
    then show ?thesis by simp
  qed
next
  case (Seq a b)
  then obtain u where u: "u \<in> set (ends ci a s)" "t \<in> set (ends ci b u)"
    by auto
  from Seq.IH(1) [OF u(1)] Seq.IH(2) [OF u(2)] show ?case
    by (auto intro: suffix_order.trans)
next
  case (Alt a b)
  from Alt.prems have "t \<in> set (ends ci a s) \<or> t \<in> set (ends ci b s)" by auto
  then show ?case
  proof
    assume "t \<in> set (ends ci a s)"
    from Alt.IH(1) [OF this] show ?thesis by auto
  next
    assume "t \<in> set (ends ci b s)"
    from Alt.IH(2) [OF this] show ?thesis by auto
  qed
next
  case Eol
  then show ?case by (auto split: if_splits)
qed

lemma match_len_Some:
  assumes "match_len ci r s = Some n"
  shows "n \<le> length s" and "min_len r \<le> n"
proof -
  from assms obtain t ts where e: "ends ci r s = t # ts" and n: "n = length s - length t"
    by (auto simp: match_len_def split: list.splits)
  then have "t \<in> set (ends ci r s)" by simp
  from ends_suffix [OF this] n show "n \<le> length s" and "min_len r \<le> n"
    by auto
qed

lemma match_len_None_iff: "match_len ci r s = None \<longleftrightarrow> ends ci r s = []"
  by (simp add: match_len_def split: list.splits)

lemma match_spans_None:
  "match_len ci r s = None \<Longrightarrow> s \<noteq> [] \<Longrightarrow>
     match_spans ci r off s = match_spans ci r (Suc off) (tl s)"
  by (subst match_spans.simps) simp

lemma match_spans_None_Nil:
  "match_len ci r [] = None \<Longrightarrow> match_spans ci r off [] = []"
  by (subst match_spans.simps) simp

lemma match_spans_Some:
  "match_len ci r s = Some n \<Longrightarrow> s \<noteq> [] \<Longrightarrow>
     match_spans ci r off s = (off, n) # match_spans ci r (off + max 1 n) (drop (max 1 n) s)"
  by (subst match_spans.simps) simp

lemma match_spans_Some_Nil:
  "match_len ci r [] = Some n \<Longrightarrow> match_spans ci r off [] = [(off, n)]"
  by (subst match_spans.simps) simp

lemma match_all_None:
  "match_len ci r s = None \<Longrightarrow> s \<noteq> [] \<Longrightarrow> match_all ci r s = match_all ci r (tl s)"
  by (subst match_all.simps) simp

lemma match_all_None_Nil:
  "match_len ci r [] = None \<Longrightarrow> match_all ci r [] = []"
  by (subst match_all.simps) simp

lemma match_all_Some:
  "match_len ci r s = Some n \<Longrightarrow> s \<noteq> [] \<Longrightarrow>
     match_all ci r s = take n s # match_all ci r (drop (max 1 n) s)"
  by (subst match_all.simps) simp

lemma match_all_Some_Nil:
  "match_len ci r [] = Some n \<Longrightarrow> match_all ci r [] = [[]]"
  by (subst match_all.simps) simp

text \<open>The scan from offset \<open>off\<close> of a text, by induction on what is left.\<close>

lemma scan_texts:
  "off \<le> length text \<Longrightarrow>
     map (substring_at text) (match_spans ci r off (drop off text)) = match_all ci r (drop off text)"
proof (induction "length text - off" arbitrary: off rule: less_induct)
  case less
  let ?s = "drop off text"
  show ?case
  proof (cases "match_len ci r ?s")
    case None
    show ?thesis
    proof (cases "?s = []")
      case True
      with None show ?thesis
        by (simp add: match_spans_None_Nil match_all_None_Nil)
    next
      case False
      then have lt: "off < length text" by simp
      have tl: "tl ?s = drop (Suc off) text"
        by (simp add: drop_Suc tl_drop)
      from lt have "length text - Suc off < length text - off" "Suc off \<le> length text" by simp_all
      from less.hyps [OF this] None False tl show ?thesis
        by (simp add: match_spans_None match_all_None)
    qed
  next
    case (Some n)
    show ?thesis
    proof (cases "?s = []")
      case True
      with Some match_len_Some(1) [OF Some] show ?thesis
        by (simp add: match_spans_Some_Nil match_all_Some_Nil substring_at_def)
    next
      case False
      then have lt: "off < length text" by simp
      from match_len_Some(1) [OF Some] less.prems have n: "off + n \<le> length text" by simp
      let ?k = "max 1 n"
      have dr: "drop ?k ?s = drop (off + ?k) text"
        by (simp add: add.commute)
      from lt n have "length text - (off + ?k) < length text - off" "off + ?k \<le> length text"
        by (auto simp: max_def)
      from less.hyps [OF this] Some False dr show ?thesis
        by (simp add: match_spans_Some match_all_Some substring_at_def)
    qed
  qed
qed

lemma scan_spans:
  "off \<le> length text \<Longrightarrow>
     list_all (\<lambda>(i, n). off \<le> i \<and> i + n \<le> length text \<and> match_len ci r (drop i text) = Some n)
       (match_spans ci r off (drop off text))"
proof (induction "length text - off" arbitrary: off rule: less_induct)
  case less
  let ?s = "drop off text"
  let ?Q = "\<lambda>off. \<lambda>(i, n). off \<le> i \<and> i + n \<le> length text \<and> match_len ci r (drop i text) = Some n"
  have weaken: "list_all (?Q off') xs \<Longrightarrow> off \<le> off' \<Longrightarrow> list_all (?Q off) xs" for off' xs
    by (auto simp: list_all_iff)
  show ?case
  proof (cases "match_len ci r ?s")
    case None
    show ?thesis
    proof (cases "?s = []")
      case True
      with None show ?thesis
        by (simp add: match_spans_None_Nil)
    next
      case False
      then have lt: "off < length text" by simp
      have tl: "tl ?s = drop (Suc off) text"
        by (simp add: drop_Suc tl_drop)
      from lt have "length text - Suc off < length text - off" "Suc off \<le> length text" by simp_all
      from less.hyps [OF this] have "list_all (?Q (Suc off)) (match_spans ci r (Suc off) (drop (Suc off) text))" .
      then have "list_all (?Q off) (match_spans ci r (Suc off) (drop (Suc off) text))"
        by (rule weaken) simp
      with None False tl show ?thesis
        by (simp add: match_spans_None)
    qed
  next
    case (Some n)
    from match_len_Some(1) [OF Some] less.prems have n: "off + n \<le> length text" by simp
    show ?thesis
    proof (cases "?s = []")
      case True
      with Some n show ?thesis
        by (simp add: match_spans_Some_Nil)
    next
      case False
      then have lt: "off < length text" by simp
      let ?k = "max 1 n"
      have dr: "drop ?k ?s = drop (off + ?k) text"
        by (simp add: add.commute)
      from lt n have "length text - (off + ?k) < length text - off" "off + ?k \<le> length text"
        by (auto simp: max_def)
      from less.hyps [OF this]
      have "list_all (?Q (off + ?k)) (match_spans ci r (off + ?k) (drop (off + ?k) text))" .
      then have "list_all (?Q off) (match_spans ci r (off + ?k) (drop (off + ?k) text))"
        by (rule weaken) simp
      with Some False dr n show ?thesis
        by (simp add: match_spans_Some)
    qed
  qed
qed

lemma scan_sorted:
  "off \<le> length text \<Longrightarrow>
     sorted_wrt (\<lambda>(i, n) (j, m). i + max 1 n \<le> j) (match_spans ci r off (drop off text))"
proof (induction "length text - off" arbitrary: off rule: less_induct)
  case less
  let ?s = "drop off text"
  show ?case
  proof (cases "match_len ci r ?s")
    case None
    show ?thesis
    proof (cases "?s = []")
      case True
      with None show ?thesis
        by (simp add: match_spans_None_Nil)
    next
      case False
      then have lt: "off < length text" by simp
      have tl: "tl ?s = drop (Suc off) text"
        by (simp add: drop_Suc tl_drop)
      from lt have "length text - Suc off < length text - off" "Suc off \<le> length text" by simp_all
      from less.hyps [OF this] None False tl show ?thesis
        by (simp add: match_spans_None)
    qed
  next
    case (Some n)
    from match_len_Some(1) [OF Some] less.prems have n: "off + n \<le> length text" by simp
    show ?thesis
    proof (cases "?s = []")
      case True
      with Some show ?thesis
        by (simp add: match_spans_Some_Nil)
    next
      case False
      then have lt: "off < length text" by simp
      let ?k = "max 1 n"
      have dr: "drop ?k ?s = drop (off + ?k) text"
        by (simp add: add.commute)
      from lt n have k: "length text - (off + ?k) < length text - off" "off + ?k \<le> length text"
        by (auto simp: max_def)
      have later: "\<forall>x \<in> set (match_spans ci r (off + ?k) (drop (off + ?k) text)).
                    (case x of (j, m) \<Rightarrow> off + ?k \<le> j)"
        using scan_spans [OF k(2), of ci r] by (auto simp: list_all_iff)
      from less.hyps [OF k] later Some False dr show ?thesis
        by (simp add: match_spans_Some)
    qed
  qed
qed

lemma scan_complete:
  "off \<le> length text \<Longrightarrow> off \<le> p \<Longrightarrow> p \<le> length text \<Longrightarrow>
     match_len ci r (drop p text) = None \<or>
     list_ex (\<lambda>(i, n). i \<le> p \<and> p < i + max 1 n) (match_spans ci r off (drop off text))"
proof (induction "length text - off" arbitrary: off rule: less_induct)
  case less
  let ?s = "drop off text"
  show ?case
  proof (cases "match_len ci r ?s")
    case None
    show ?thesis
    proof (cases "?s = []")
      case True
      with less.prems have "p = off" by simp
      with None show ?thesis by simp
    next
      case False
      then have lt: "off < length text" by simp
      have tl: "tl ?s = drop (Suc off) text"
        by (simp add: drop_Suc tl_drop)
      show ?thesis
      proof (cases "p = off")
        case True
        with None show ?thesis by simp
      next
        case ne: False
        with less.prems have p: "Suc off \<le> p" by simp
        from lt have "length text - Suc off < length text - off" "Suc off \<le> length text" by simp_all
        from less.hyps [OF this p less.prems(3)] None False tl show ?thesis
          by (simp add: match_spans_None)
      qed
    qed
  next
    case (Some n)
    from match_len_Some(1) [OF Some] less.prems have n: "off + n \<le> length text" by simp
    show ?thesis
    proof (cases "?s = []")
      case True
      with less.prems have "p = off" by simp
      with Some True show ?thesis
        by (simp add: match_spans_Some_Nil)
    next
      case False
      then have lt: "off < length text" by simp
      let ?k = "max 1 n"
      have dr: "drop ?k ?s = drop (off + ?k) text"
        by (simp add: add.commute)
      from lt n have k: "length text - (off + ?k) < length text - off" "off + ?k \<le> length text"
        by (auto simp: max_def)
      show ?thesis
      proof (cases "p < off + ?k")
        case True
        with less.prems Some False show ?thesis
          by (simp add: match_spans_Some)
      next
        case ge: False
        then have "off + ?k \<le> p" by simp
        from less.hyps [OF k this less.prems(3)] Some False dr show ?thesis
          by (auto simp: match_spans_Some)
      qed
    qed
  qed
qed

lemma leftmost_scan_match_spans: "leftmost_scan ci r text (match_spans ci r 0 text)"
proof -
  have a: "list_all (\<lambda>(i, n). i + n \<le> length text \<and> match_len ci r (drop i text) = Some n)
             (match_spans ci r 0 text)"
    using scan_spans [of 0 "text" ci r] by (auto simp: list_all_iff)
  have b: "sorted_wrt (\<lambda>(i, n) (j, m). i + max 1 n \<le> j) (match_spans ci r 0 text)"
    using scan_sorted [of 0 "text" ci r] by simp
  have c: "list_all (\<lambda>p. match_len ci r (drop p text) = None \<or>
                    list_ex (\<lambda>(i, n). i \<le> p \<and> p < i + max 1 n) (match_spans ci r 0 text))
        [0 ..< Suc (length text)]"
    unfolding list_all_iff
  proof
    fix p assume "p \<in> set [0 ..< Suc (length text)]"
    then have "p \<le> length text" by auto
    from scan_complete [of 0 "text" p ci r, OF _ _ this]
    show "match_len ci r (drop p text) = None \<or>
          list_ex (\<lambda>(i, n). i \<le> p \<and> p < i + max 1 n) (match_spans ci r 0 text)"
      by simp
  qed
  from a b c show ?thesis
    by (simp add: leftmost_scan_def)
qed

lemma match_all_spans: "match_all ci r text = map (substring_at text) (match_spans ci r 0 text)"
  using scan_texts [of 0 "text" ci r] by simp

lemma match_all_empty_iff:
  "match_all ci r text = [] \<longleftrightarrow>
     list_all (\<lambda>p. match_len ci r (drop p text) = None) [0 ..< Suc (length text)]"
proof
  assume "match_all ci r text = []"
  then have e: "match_spans ci r 0 text = []"
    by (simp add: match_all_spans)
  show "list_all (\<lambda>p. match_len ci r (drop p text) = None) [0 ..< Suc (length text)]"
    unfolding list_all_iff
  proof
    fix p assume "p \<in> set [0 ..< Suc (length text)]"
    then have "p \<le> length text" by auto
    from scan_complete [of 0 "text" p ci r, OF _ _ this] e
    show "match_len ci r (drop p text) = None" by simp
  qed
next
  assume none: "list_all (\<lambda>p. match_len ci r (drop p text) = None) [0 ..< Suc (length text)]"
  show "match_all ci r text = []"
  proof (rule ccontr)
    assume "match_all ci r text \<noteq> []"
    then obtain i n where "(i, n) \<in> set (match_spans ci r 0 text)"
      by (cases "match_spans ci r 0 text") (auto simp: match_all_spans)
    with scan_spans [of 0 "text" ci r]
    have i: "i + n \<le> length text" "match_len ci r (drop i text) = Some n"
      by (auto simp: list_all_iff)
    then have "i \<in> set [0 ..< Suc (length text)]" by auto
    with none have "match_len ci r (drop i text) = None"
      unfolding list_all_iff by blast
    with i show False by simp
  qed
qed

lemma match_all_min_len:
  "list_all (\<lambda>m. min_len r \<le> length m) (match_all ci r text)"
proof -
  have "min_len r \<le> length (substring_at text x)" if "x \<in> set (match_spans ci r 0 text)" for x
  proof -
    obtain i n where x: "x = (i, n)" by (cases x)
    with that scan_spans [of 0 "text" ci r]
    have "i + n \<le> length text" "match_len ci r (drop i text) = Some n"
      by (auto simp: list_all_iff)
    with match_len_Some(2) [of ci r "drop i text" n] x show ?thesis
      by (simp add: substring_at_def)
  qed
  then show ?thesis
    by (simp add: match_all_spans list_all_iff)
qed

text \<open>The matcher against the accepted strings: for an expression without anchor, the
  remainders it lists are exactly those left by an accepted prefix.\<close>

lemma lit_rest_accepts:
  "lit_rest ci l s = Some t \<Longrightarrow> \<exists>w. s = w @ t \<and> list_all2 (chr_eq ci) l w"
proof (induction ci l s rule: lit_rest.induct)
  case (1 ci s)
  then show ?case by simp
next
  case (2 ci a l)
  then show ?case by simp
next
  case (3 ci a l c s)
  from "3.prems" have eq: "chr_eq ci a c" and rest: "lit_rest ci l s = Some t"
    by (auto split: if_splits)
  from "3.IH" [OF eq rest] obtain w where "s = w @ t" "list_all2 (chr_eq ci) l w"
    by blast
  with eq have "c # s = (c # w) @ t \<and> list_all2 (chr_eq ci) (a # l) (c # w)"
    by simp
  then show ?case by blast
qed

lemma accepts_lit_rest:
  "list_all2 (chr_eq ci) l w \<Longrightarrow> lit_rest ci l (w @ t) = Some t"
  by (induction l w rule: list_all2_induct) simp_all

lemma ends_accepts:
  "anchor_free r \<Longrightarrow> t \<in> set (ends ci r s) \<Longrightarrow> \<exists>w. s = w @ t \<and> accepts ci r w"
proof (induction r arbitrary: s t)
  case (Str l)
  then have "lit_rest ci l s = Some t"
    by (auto split: option.splits)
  from lit_rest_accepts [OF this] show ?case
    by (auto intro: acc_Str)
next
  case (Cls k)
  then obtain c where "s = c # t" "in_class ci k c"
    by (auto split: list.splits if_splits)
  then have "s = [c] @ t \<and> accepts ci (Cls k) [c]"
    by (simp add: acc_Cls)
  then show ?case by blast
next
  case (Rep m n k)
  let ?P = "in_class ci k"
  from Rep.prems obtain j where j: "t = drop j s" "m \<le> j" "j \<le> length (takeWhile ?P s)"
    "case n of None \<Rightarrow> True | Some b \<Rightarrow> j \<le> b"
    by (auto simp: Let_def split: option.splits)
  have le: "length (takeWhile ?P s) \<le> length s"
    by (rule length_takeWhile_le)
  have "take j s = take j (takeWhile ?P s)"
  proof -
    have "take j s = take j (takeWhile ?P s @ dropWhile ?P s)" by simp
    also have "\<dots> = take j (takeWhile ?P s)" using j(3) by (simp del: takeWhile_dropWhile_id)
    finally show ?thesis .
  qed
  then have "set (take j s) \<subseteq> set (takeWhile ?P s)"
    by (simp add: set_take_subset)
  then have all: "list_all ?P (take j s)"
    by (auto simp: list_all_iff dest: set_takeWhileD)
  have len: "length (take j s) = j"
    using j(3) le by simp
  from all j(2,4) len have "accepts ci (Rep m n k) (take j s)"
    by (intro acc_Rep) (auto split: option.splits)
  moreover have "s = take j s @ t"
    by (simp add: j(1))
  ultimately show ?case by blast
next
  case (Opt r)
  from Opt.prems have "t \<in> set (ends ci r s) \<or> t = s" by auto
  then show ?case
  proof
    assume "t \<in> set (ends ci r s)"
    with Opt.IH Opt.prems(1) obtain w where "s = w @ t" "accepts ci r w" by auto
    then show ?thesis by (auto intro: acc_Opt_take)
  next
    assume "t = s"
    then have "s = [] @ t \<and> accepts ci (Opt r) []" by (simp add: acc_Opt_skip)
    then show ?thesis by blast
  qed
next
  case (Seq a b)
  from Seq.prems obtain u where u: "u \<in> set (ends ci a s)" "t \<in> set (ends ci b u)"
    by auto
  from Seq.IH(1) [OF _ u(1)] Seq.prems(1) obtain w1 where w1: "s = w1 @ u" "accepts ci a w1"
    by auto
  from Seq.IH(2) [OF _ u(2)] Seq.prems(1) obtain w2 where w2: "u = w2 @ t" "accepts ci b w2"
    by auto
  from w1 w2 have "s = (w1 @ w2) @ t \<and> accepts ci (Seq a b) (w1 @ w2)"
    by (simp add: acc_Seq)
  then show ?case by blast
next
  case (Alt a b)
  from Alt.prems have "t \<in> set (ends ci a s) \<or> t \<in> set (ends ci b s)" by auto
  then show ?case
  proof
    assume "t \<in> set (ends ci a s)"
    with Alt.IH(1) Alt.prems(1) obtain w where "s = w @ t" "accepts ci a w" by auto
    then show ?thesis by (auto intro: acc_Alt_left)
  next
    assume "t \<in> set (ends ci b s)"
    with Alt.IH(2) Alt.prems(1) obtain w where "s = w @ t" "accepts ci b w" by auto
    then show ?thesis by (auto intro: acc_Alt_right)
  qed
next
  case Eol
  then show ?case by simp
qed

lemma accepts_ends:
  "accepts ci r w \<Longrightarrow> t \<in> set (ends ci r (w @ t))"
proof (induction arbitrary: t rule: accepts.induct)
  case (acc_Str l w)
  then show ?case by (simp add: accepts_lit_rest)
next
  case (acc_Cls k c)
  then show ?case by simp
next
  case (acc_Rep k w m n)
  let ?P = "in_class ci k"
  from acc_Rep(1) have tw: "takeWhile ?P (w @ t) = w @ takeWhile ?P t"
    by (simp add: list_all_iff takeWhile_append2)
  define hi where "hi = (case n of None \<Rightarrow> length (takeWhile ?P (w @ t))
                          | Some b \<Rightarrow> min b (length (takeWhile ?P (w @ t))))"
  have "m \<le> length w" "length w \<le> hi"
    using acc_Rep(2,3) by (auto simp: hi_def tw split: option.splits)
  then have "length w \<in> set (rev [m ..< Suc hi])"
    by auto
  then have "drop (length w) (w @ t) \<in> (\<lambda>j. drop j (w @ t)) ` set (rev [m ..< Suc hi])"
    by (rule imageI)
  then have "t \<in> set (map (\<lambda>j. drop j (w @ t)) (rev [m ..< Suc hi]))"
    by (simp only: set_map append_eq_conv_conj drop_all length_append) simp
  then show ?case
    by (simp only: ends.simps Let_def hi_def)
next
  case (acc_Opt_skip r)
  then show ?case by simp
next
  case (acc_Opt_take r w)
  then show ?case by simp
next
  case (acc_Seq a u b v)
  have "v @ t \<in> set (ends ci a (u @ v @ t))" by (rule acc_Seq.IH(1))
  moreover have "t \<in> set (ends ci b (v @ t))" by (rule acc_Seq.IH(2))
  ultimately show ?case by auto
next
  case (acc_Alt_left a w b)
  then show ?case by simp
next
  case (acc_Alt_right b w a)
  then show ?case by simp
qed

lemma match_len_accepts:
  assumes "anchor_free r"
  shows "match_len ci r s \<noteq> None \<longleftrightarrow> (\<exists>w t. s = w @ t \<and> accepts ci r w)"
proof
  assume "match_len ci r s \<noteq> None"
  then obtain t where "t \<in> set (ends ci r s)"
    by (cases "ends ci r s") (auto simp: match_len_def)
  from ends_accepts [OF assms this] show "\<exists>w t. s = w @ t \<and> accepts ci r w"
    by blast
next
  assume "\<exists>w t. s = w @ t \<and> accepts ci r w"
  then obtain w t where "s = w @ t" "accepts ci r w" by blast
  with accepts_ends [of ci r w t] have "ends ci r s \<noteq> []" by auto
  then show "match_len ci r s \<noteq> None"
    by (simp add: match_len_None_iff)
qed

lemma match_len_take_accepts:
  assumes "anchor_free r" "match_len ci r s = Some n"
  shows "accepts ci r (take n s)"
proof -
  from assms(2) obtain t ts where e: "ends ci r s = t # ts" and n: "n = length s - length t"
    by (auto simp: match_len_def split: list.splits)
  then have "t \<in> set (ends ci r s)" by simp
  from ends_accepts [OF assms(1) this] obtain w where w: "s = w @ t" "accepts ci r w"
    by blast
  with n show ?thesis by simp
qed

lemma match_all_accepts:
  assumes "anchor_free r"
  shows "list_all (accepts ci r) (match_all ci r text)"
proof -
  have "accepts ci r (substring_at text x)" if "x \<in> set (match_spans ci r 0 text)" for x
  proof -
    obtain i n where x: "x = (i, n)" by (cases x)
    with that scan_spans [of 0 "text" ci r]
    have "match_len ci r (drop i text) = Some n"
      by (auto simp: list_all_iff)
    from match_len_take_accepts [OF assms this] x show ?thesis
      by (simp add: substring_at_def)
  qed
  then show ?thesis
    by (simp add: match_all_spans list_all_iff)
qed

lemma match_all_empty_accepts:
  assumes "anchor_free r"
  shows "match_all ci r text = [] \<longleftrightarrow> \<not> (\<exists>u w v. text = u @ w @ v \<and> accepts ci r w)"
proof
  assume e: "match_all ci r text = []"
  show "\<not> (\<exists>u w v. text = u @ w @ v \<and> accepts ci r w)"
  proof
    assume "\<exists>u w v. text = u @ w @ v \<and> accepts ci r w"
    then obtain u w v where t: "text = u @ w @ v" and a: "accepts ci r w" by blast
    then have ne: "match_len ci r (drop (length u) text) \<noteq> None"
      using match_len_accepts [OF assms, of ci "w @ v"] by auto
    have "length u \<in> {0 ..< Suc (length text)}"
      using t by simp
    then have mem: "length u \<in> set [0 ..< Suc (length text)]"
      by (simp only: set_upt)
    from e have all: "\<forall>p \<in> set [0 ..< Suc (length text)]. match_len ci r (drop p text) = None"
      by (simp only: match_all_empty_iff list_all_iff)
    from all mem have "match_len ci r (drop (length u) text) = None"
      by (rule bspec)
    with ne show False by simp
  qed
next
  assume n: "\<not> (\<exists>u w v. text = u @ w @ v \<and> accepts ci r w)"
  have "match_len ci r (drop p text) = None" for p
  proof (rule ccontr)
    assume "match_len ci r (drop p text) \<noteq> None"
    with match_len_accepts [OF assms, of ci "drop p text"]
    obtain w t where "drop p text = w @ t" "accepts ci r w" by blast
    then have "text = take p text @ w @ t \<and> accepts ci r w"
      by (metis append_take_drop_id)
    with n show False by blast
  qed
  then show "match_all ci r text = []"
    by (simp add: match_all_empty_iff list_all_iff)
qed

lemma anchor_free_regexes:
  "anchor_free addressRegex" "anchor_free phoneRegex" "anchor_free websiteRegex"
  "anchor_free emailRegex"
  by (simp_all add: addressRegex_def phoneRegex_def websiteRegex_def emailRegex_def)


lemma extractors_match_all:
  "extractAddresses t = match_all True addressRegex t"
  "extractPhoneNumbers t = match_all False phoneRegex t"
  "extractWebsites t = match_all False websiteRegex t"
  "extractEmails t = match_all False emailRegex t"
  by (simp_all add: extractAddresses_def extractPhoneNumbers_def extractWebsites_def
      extractEmails_def str_match_g_def Let_def)

lemma scan_result_match:
  assumes "0 < min_len r"
  shows "scan_result ci r text
           (case str_match_g ci r text of None \<Rightarrow> [] | Some matches \<Rightarrow> matches)"
proof -
  have out: "(case str_match_g ci r text of None \<Rightarrow> [] | Some matches \<Rightarrow> matches) = match_all ci r text"
    by (simp add: str_match_g_def Let_def)
  have "list_all (\<lambda>m. m \<noteq> []) (match_all ci r text)"
    using match_all_min_len [of r ci "text"] assms by (auto simp: list_all_iff)
  then show ?thesis
    unfolding out scan_result_def
    using match_all_spans [of ci r "text"] leftmost_scan_match_spans [of ci r "text"]
      match_all_empty_iff [of ci r "text"]
    by simp
qed

lemma min_len_regexes:
  "0 < min_len addressRegex" "0 < min_len phoneRegex" "0 < min_len websiteRegex"
  "0 < min_len emailRegex"
  by (simp_all add: addressRegex_def phoneRegex_def websiteRegex_def emailRegex_def)

text \<open>
  C7. Each of the four field extractors is a function defined on every text (the scan
  terminates, and the value \<open>null\<close> of \<open>match\<close> is replaced by the empty list). What it
  returns is a leftmost scan of the text with its expression: the matches the engine
  reports, in increasing order of position, none overlapping another, none empty, and
  no position with a match outside them. Every returned text is accepted by the
  expression, and the result is the empty list exactly when no substring of the text is
  accepted by the expression.
\<close>

theorem field_extractors_scan:
  "scan_result True addressRegex text (extractAddresses text) \<and>
   scan_result False phoneRegex text (extractPhoneNumbers text) \<and>
   scan_result False websiteRegex text (extractWebsites text) \<and>
   scan_result False emailRegex text (extractEmails text) \<and>
   list_all (accepts True addressRegex) (extractAddresses text) \<and>
   list_all (accepts False phoneRegex) (extractPhoneNumbers text) \<and>
   list_all (accepts False websiteRegex) (extractWebsites text) \<and>
   list_all (accepts False emailRegex) (extractEmails text) \<and>
   (extractAddresses text = [] \<longleftrightarrow>
      \<not> (\<exists>u w v. text = u @ w @ v \<and> accepts True addressRegex w)) \<and>
   (extractPhoneNumbers text = [] \<longleftrightarrow>
      \<not> (\<exists>u w v. text = u @ w @ v \<and> accepts False phoneRegex w)) \<and>
   (extractWebsites text = [] \<longleftrightarrow>
      \<not> (\<exists>u w v. text = u @ w @ v \<and> accepts False websiteRegex w)) \<and>
   (extractEmails text = [] \<longleftrightarrow>
      \<not> (\<exists>u w v. text = u @ w @ v \<and> accepts False emailRegex w))"
proof -
  have scans:
    "scan_result True addressRegex text (extractAddresses text)"
    "scan_result False phoneRegex text (extractPhoneNumbers text)"
    "scan_result False websiteRegex text (extractWebsites text)"
    "scan_result False emailRegex text (extractEmails text)"
    unfolding extractAddresses_def extractPhoneNumbers_def extractWebsites_def extractEmails_def
    by (intro scan_result_match min_len_regexes)+
  have real:
    "list_all (accepts True addressRegex) (extractAddresses text)"
    "list_all (accepts False phoneRegex) (extractPhoneNumbers text)"
    "list_all (accepts False websiteRegex) (extractWebsites text)"
    "list_all (accepts False emailRegex) (extractEmails text)"
    unfolding extractors_match_all
    by (intro match_all_accepts anchor_free_regexes)+
  have none:
    "extractAddresses text = [] \<longleftrightarrow>
       \<not> (\<exists>u w v. text = u @ w @ v \<and> accepts True addressRegex w)"
    "extractPhoneNumbers text = [] \<longleftrightarrow>
       \<not> (\<exists>u w v. text = u @ w @ v \<and> accepts False phoneRegex w)"
    "extractWebsites text = [] \<longleftrightarrow>
       \<not> (\<exists>u w v. text = u @ w @ v \<and> accepts False websiteRegex w)"
    "extractEmails text = [] \<longleftrightarrow>
       \<not> (\<exists>u w v. text = u @ w @ v \<and> accepts False emailRegex w)"
    unfolding extractors_match_all
    by (intro match_all_empty_accepts anchor_free_regexes)+
  from scans real none show ?thesis
    by (intro conjI)
qed

theorem field_extractors_scan_witness:
  "scan_result False emailRegex ''ann@ex.org, bob@ex.org'' [''ann@ex.org'', ''bob@ex.org''] \<and>
   list_all (accepts False emailRegex) [''ann@ex.org'', ''bob@ex.org'']"
proof -
  have e: "extractEmails ''ann@ex.org, bob@ex.org'' = [''ann@ex.org'', ''bob@ex.org'']"
    by code_simp
  from field_extractors_scan [of "''ann@ex.org, bob@ex.org''"]
  have "scan_result False emailRegex ''ann@ex.org, bob@ex.org''
          (extractEmails ''ann@ex.org, bob@ex.org'') \<and>
        list_all (accepts False emailRegex) (extractEmails ''ann@ex.org, bob@ex.org'')"
    by blast
  then show ?thesis
    by (simp only: e)
qed

lemma field_extractors_examples:
  "extractEmails ''no emails here'' = []"
  "extractEmails ''ann@ex.org, bob@ex.org'' = [''ann@ex.org'', ''bob@ex.org'']"
  "match_spans False emailRegex 0 ''ann@ex.org, bob@ex.org'' = [(0, 10), (12, 10)]"
  "extractAddresses ''JOE SHOP 123 Main Street Open Daily 45 Oak rd'' =
     [''123 Main Street'', ''45 Oak rd'']"
  "extractPhoneNumbers ''call +1 (555) 123-4567 or 555.987.6543 now'' =
     [''+1 (555) 123-4567'', ''555.987.6543'']"
  by code_simp+

section \<open>Websites inside email addresses\<close>

text \<open>
  C10, as stated, fails in its reason: the address \<open>a@b.co\<close> is accepted by the email
  expression, and the website expression matches neither in it nor in its domain
  \<open>b.co\<close> (it needs three characters before the dot).
\<close>

theorem short_domain_has_no_website:
  "extractEmails ''a@b.co'' = [''a@b.co''] \<and> extractWebsites ''a@b.co'' = [] \<and>
   extractWebsites ''b.co'' = []"
  by code_simp

text \<open>
  C10, amended. For the text \<open>joe@example.com\<close>, an email address and nothing else,
  \<open>extractWebsites\<close> returns \<open>example.com\<close>, a part of the address; and for every text
  that is a local part, \<open>@\<close> and a domain at whose start the website expression
  matches, \<open>extractWebsites\<close> returns a non-empty list.
\<close>

theorem website_inside_email:
  "extractEmails ''joe@example.com'' = [''joe@example.com''] \<and>
   extractWebsites ''joe@example.com'' = [''example.com''] \<and>
   (\<forall>local domain. match_len False websiteRegex domain \<noteq> None \<longrightarrow>
      extractWebsites (local @ ''@'' @ domain) \<noteq> [])"
proof -
  have a: "extractEmails ''joe@example.com'' = [''joe@example.com'']"
    by code_simp
  have b: "extractWebsites ''joe@example.com'' = [''example.com'']"
    by code_simp
  have c: "extractWebsites (local @ ''@'' @ domain) \<noteq> []"
    if m: "match_len False websiteRegex domain \<noteq> None" for local domain
  proof
    let ?t = "local @ ''@'' @ domain"
    assume "extractWebsites ?t = []"
    then have "list_all (\<lambda>p. match_len False websiteRegex (drop p ?t) = None)
                 [0 ..< Suc (length ?t)]"
      by (simp only: extractors_match_all match_all_empty_iff)
    moreover have "Suc (length local) \<in> {0 ..< Suc (length ?t)}"
      by simp
    then have "Suc (length local) \<in> set [0 ..< Suc (length ?t)]"
      by (simp only: set_upt)
    ultimately have "match_len False websiteRegex (drop (Suc (length local)) ?t) = None"
      unfolding list_all_iff by blast
    with m show False by simp
  qed
  from a b c show ?thesis by blast
qed

theorem website_inside_email_witness:
  "match_len False websiteRegex ''example.com'' \<noteq> None \<and>
   extractWebsites (''joe'' @ ''@'' @ ''example.com'') \<noteq> []"
proof -
  have h: "match_len False websiteRegex ''example.com'' \<noteq> None"
    by code_simp
  from website_inside_email
  have "match_len False websiteRegex ''example.com'' \<noteq> None \<longrightarrow>
        extractWebsites (''joe'' @ ''@'' @ ''example.com'') \<noteq> []"
    by blast
  with h show ?thesis by blast
qed

section \<open>Properties of the double arithmetic\<close>

lemma binexp_bounds:
  assumes "0 < x"
  shows "2 powi binexp x \<le> x" and "x < 2 powi (binexp x + 1)"
proof -
  obtain p q where pq: "quotient_of x = (p, q)" by (cases "quotient_of x")
  then have q: "0 < q" and x: "x = of_int p / of_int q"
    by (auto dest: quotient_of_denom_pos quotient_of_div)
  from assms x q have p: "0 < p"
    by (simp add: zero_less_divide_iff)
  define bp where "bp = bitlen p"
  define bq where "bq = bitlen q"
  from bitlen_bounds [OF p] have p1: "2 ^ nat (bp - 1) \<le> p" and p2: "p < 2 ^ nat bp"
    by (simp_all add: bp_def)
  from bitlen_bounds [OF q] have q1: "2 ^ nat (bq - 1) \<le> q" and q2: "q < 2 ^ nat bq"
    by (simp_all add: bq_def)
  have bp: "1 \<le> bp" and bq: "1 \<le> bq"
    using p q by (auto simp: bp_def bq_def bitlen_alt_def)
  have P1: "(2::rat) powi (bp - 1) \<le> of_int p"
  proof -
    have "(2::rat) powi (bp - 1) = 2 ^ nat (bp - 1)"
      using bp by (simp add: power_int_def)
    also have "\<dots> = of_int (2 ^ nat (bp - 1))" by simp
    also have "\<dots> \<le> of_int p" using p1 by (subst of_int_le_iff)
    finally show ?thesis .
  qed
  have P2: "of_int p < (2::rat) powi bp"
  proof -
    have "of_int p < (of_int (2 ^ nat bp) :: rat)" using p2 by (subst of_int_less_iff)
    also have "\<dots> = 2 powi bp" using bp by (simp add: power_int_def)
    finally show ?thesis .
  qed
  have Q1: "(2::rat) powi (bq - 1) \<le> of_int q"
  proof -
    have "(2::rat) powi (bq - 1) = 2 ^ nat (bq - 1)"
      using bq by (simp add: power_int_def)
    also have "\<dots> = of_int (2 ^ nat (bq - 1))" by simp
    also have "\<dots> \<le> of_int q" using q1 by (subst of_int_le_iff)
    finally show ?thesis .
  qed
  have Q2: "of_int q < (2::rat) powi bq"
  proof -
    have "of_int q < (of_int (2 ^ nat bq) :: rat)" using q2 by (subst of_int_less_iff)
    also have "\<dots> = 2 powi bq" using bq by (simp add: power_int_def)
    finally show ?thesis .
  qed
  have qpos: "(0::rat) < of_int q" using q by simp
  have upper: "x < 2 powi (bp - bq + 1)"
  proof -
    have "of_int p < (2::rat) powi (bp - bq + 1) * 2 powi (bq - 1)"
      using P2 by (simp add: power_int_add [symmetric])
    also have "\<dots> \<le> 2 powi (bp - bq + 1) * of_int q"
      using Q1 by (intro mult_left_mono) simp_all
    finally show ?thesis
      using qpos by (simp add: x pos_divide_less_eq)
  qed
  have lower: "2 powi (bp - bq - 1) < x"
  proof -
    have "(2::rat) powi (bp - bq - 1) * of_int q < 2 powi (bp - bq - 1) * 2 powi bq"
      using Q2 by (intro mult_strict_left_mono) simp_all
    also have "\<dots> = 2 powi (bp - 1)"
      by (simp add: power_int_add [symmetric])
    also have "\<dots> \<le> of_int p" by (rule P1)
    finally show ?thesis
      using qpos by (simp add: x pos_less_divide_eq)
  qed
  have b: "binexp x = (if 2 powi (bp - bq) \<le> x then bp - bq else bp - bq - 1)"
    by (simp add: binexp_def pq bp_def bq_def Let_def)
  show "2 powi binexp x \<le> x"
    using lower by (simp add: b)
  show "x < 2 powi (binexp x + 1)"
    using upper by (simp add: b not_le)
qed

lemma binexp_unique:
  assumes "2 powi e \<le> x" "x < 2 powi (e + 1)"
  shows "binexp x = e"
proof -
  have pos: "0 < x"
    using assms(1) by (rule less_le_trans [rotated]) simp
  note b = binexp_bounds [OF pos]
  have 1: "e < binexp x + 1"
  proof (rule ccontr)
    assume "\<not> e < binexp x + 1"
    then have "(2::rat) powi (binexp x + 1) \<le> 2 powi e"
      by (intro power_int_increasing) simp_all
    with assms(1) b(2) show False by simp
  qed
  have 2: "binexp x < e + 1"
  proof (rule ccontr)
    assume "\<not> binexp x < e + 1"
    then have "(2::rat) powi (e + 1) \<le> 2 powi binexp x"
      by (intro power_int_increasing) simp_all
    with assms(2) b(1) show False by simp
  qed
  from 1 2 show ?thesis by simp
qed

lemma floor_rat_numeral: "\<lfloor>(numeral a :: rat) / numeral b\<rfloor> = numeral a div numeral b"
  by (metis floor_divide_of_int_eq of_int_numeral)

lemma rnd_eval:
  assumes "2 powi e \<le> x" "x < 2 powi (e + 1)"
  shows "rnd x = of_int (round_half_even (x / 2 powi (e - 52))) * 2 powi (e - 52)"
proof -
  have pos: "0 < x"
    using assms(1) by (rule less_le_trans [rotated]) simp
  with binexp_unique [OF assms] show ?thesis
    by (simp add: rnd_def Let_def)
qed

text \<open>The literals, sums and products that the estimator can meet, each evaluated with
  the rounding rule.\<close>

lemma dec_5_1: "dec 5 1 = 1 / 2"
  by (simp add: dec_def rnd_eval [of "-1"] round_half_even_def Let_def floor_rat_numeral)

lemma dec_1_1: "dec 1 1 = 3602879701896397 / 36028797018963968"
  by (simp add: dec_def rnd_eval [of "-4"] round_half_even_def Let_def floor_rat_numeral)

lemma dec_2_1: "dec 2 1 = 3602879701896397 / 18014398509481984"
  by (simp add: dec_def rnd_eval [of "-3"] round_half_even_def Let_def floor_rat_numeral)

lemma dec_95_2: "dec 95 2 = 4278419646001971 / 4503599627370496"
  by (simp add: dec_def rnd_eval [of "-1"] round_half_even_def Let_def floor_rat_numeral)

lemma dec_7_1: "dec 7 1 = 3152519739159347 / 4503599627370496"
  by (simp add: dec_def rnd_eval [of "-1"] round_half_even_def Let_def floor_rat_numeral)

lemma dec_8_1: "dec 8 1 = 3602879701896397 / 4503599627370496"
  by (simp add: dec_def rnd_eval [of "-1"] round_half_even_def Let_def floor_rat_numeral)

lemma fl_add_1: "fl_add (1 / 2) (3602879701896397 / 36028797018963968) = 5404319552844595 / 9007199254740992"
  by (simp add: fl_add_def rnd_eval [of "-1"] round_half_even_def Let_def floor_rat_numeral)

lemma fl_add_2: "fl_add (1 / 2) (3602879701896397 / 18014398509481984) = 3152519739159347 / 4503599627370496"
  by (simp add: fl_add_def rnd_eval [of "-1"] round_half_even_def Let_def floor_rat_numeral)

lemma fl_add_3: "fl_add (5404319552844595 / 9007199254740992) (3602879701896397 / 36028797018963968) = 3152519739159347 / 4503599627370496"
  by (simp add: fl_add_def rnd_eval [of "-1"] round_half_even_def Let_def floor_rat_numeral)

lemma fl_add_4: "fl_add (5404319552844595 / 9007199254740992) (3602879701896397 / 18014398509481984) = 3602879701896397 / 4503599627370496"
  by (simp add: fl_add_def rnd_eval [of "-1"] round_half_even_def Let_def floor_rat_numeral)

lemma fl_add_5: "fl_add (3152519739159347 / 4503599627370496) (3602879701896397 / 36028797018963968) = 7205759403792793 / 9007199254740992"
  by (simp add: fl_add_def rnd_eval [of "-1"] round_half_even_def Let_def floor_rat_numeral)

lemma fl_add_6: "fl_add (3152519739159347 / 4503599627370496) (3602879701896397 / 18014398509481984) = 2026619832316723 / 2251799813685248"
  by (simp add: fl_add_def rnd_eval [of "-1"] round_half_even_def Let_def floor_rat_numeral)

lemma fl_add_7: "fl_add (7205759403792793 / 9007199254740992) (3602879701896397 / 36028797018963968) = 2026619832316723 / 2251799813685248"
  by (simp add: fl_add_def rnd_eval [of "-1"] round_half_even_def Let_def floor_rat_numeral)

lemma fl_add_8: "fl_add (3602879701896397 / 4503599627370496) (3602879701896397 / 36028797018963968) = 8106479329266893 / 9007199254740992"
  by (simp add: fl_add_def rnd_eval [of "-1"] round_half_even_def Let_def floor_rat_numeral)

lemma fl_add_9: "fl_add (2026619832316723 / 2251799813685248) (3602879701896397 / 36028797018963968) = 9007199254740991 / 9007199254740992"
  by (simp add: fl_add_def rnd_eval [of "-1"] round_half_even_def Let_def floor_rat_numeral)

lemma fl_add_10: "fl_add (8106479329266893 / 9007199254740992) (3602879701896397 / 36028797018963968) = 1"
  by (simp add: fl_add_def rnd_eval [of "0"] round_half_even_def Let_def floor_rat_numeral)

lemma fl_add_11: "fl_add (9007199254740991 / 9007199254740992) (3602879701896397 / 36028797018963968) = 4953959590107545 / 4503599627370496"
  by (simp add: fl_add_def rnd_eval [of "0"] round_half_even_def Let_def floor_rat_numeral)

lemma fl_mul_1: "fl_mul (1 / 2) (3152519739159347 / 4503599627370496) = 3152519739159347 / 9007199254740992"
  by (simp add: fl_mul_def rnd_eval [of "-2"] round_half_even_def Let_def floor_rat_numeral)

lemma fl_mul_2: "fl_mul (1 / 2) (3602879701896397 / 4503599627370496) = 3602879701896397 / 9007199254740992"
  by (simp add: fl_mul_def rnd_eval [of "-2"] round_half_even_def Let_def floor_rat_numeral)

lemma fl_mul_3: "fl_mul (5404319552844595 / 9007199254740992) (3152519739159347 / 4503599627370496) = 7566047373982433 / 18014398509481984"
  by (simp add: fl_mul_def rnd_eval [of "-2"] round_half_even_def Let_def floor_rat_numeral)

lemma fl_mul_4: "fl_mul (5404319552844595 / 9007199254740992) (3602879701896397 / 4503599627370496) = 1080863910568919 / 2251799813685248"
  by (simp add: fl_mul_def rnd_eval [of "-2"] round_half_even_def Let_def floor_rat_numeral)

lemma fl_mul_5: "fl_mul (3152519739159347 / 4503599627370496) (3152519739159347 / 4503599627370496) = 8827055269646171 / 18014398509481984"
  by (simp add: fl_mul_def rnd_eval [of "-2"] round_half_even_def Let_def floor_rat_numeral)

lemma fl_mul_6: "fl_mul (3152519739159347 / 4503599627370496) (3602879701896397 / 4503599627370496) = 5044031582654955 / 9007199254740992"
  by (simp add: fl_mul_def rnd_eval [of "-1"] round_half_even_def Let_def floor_rat_numeral)

lemma fl_mul_7: "fl_mul (7205759403792793 / 9007199254740992) (3152519739159347 / 4503599627370496) = 5044031582654955 / 9007199254740992"
  by (simp add: fl_mul_def rnd_eval [of "-1"] round_half_even_def Let_def floor_rat_numeral)

lemma fl_mul_8: "fl_mul (7205759403792793 / 9007199254740992) (3602879701896397 / 4503599627370496) = 5764607523034235 / 9007199254740992"
  by (simp add: fl_mul_def rnd_eval [of "-1"] round_half_even_def Let_def floor_rat_numeral)

lemma fl_mul_9: "fl_mul (3602879701896397 / 4503599627370496) (3152519739159347 / 4503599627370496) = 5044031582654955 / 9007199254740992"
  by (simp add: fl_mul_def rnd_eval [of "-1"] round_half_even_def Let_def floor_rat_numeral)

lemma fl_mul_10: "fl_mul (3602879701896397 / 4503599627370496) (3602879701896397 / 4503599627370496) = 1441151880758559 / 2251799813685248"
  by (simp add: fl_mul_def rnd_eval [of "-1"] round_half_even_def Let_def floor_rat_numeral)

lemma fl_mul_11: "fl_mul (2026619832316723 / 2251799813685248) (3152519739159347 / 4503599627370496) = 709316941310853 / 1125899906842624"
  by (simp add: fl_mul_def rnd_eval [of "-1"] round_half_even_def Let_def floor_rat_numeral)

lemma fl_mul_12: "fl_mul (2026619832316723 / 2251799813685248) (3602879701896397 / 4503599627370496) = 3242591731706757 / 4503599627370496"
  by (simp add: fl_mul_def rnd_eval [of "-1"] round_half_even_def Let_def floor_rat_numeral)

lemma fl_mul_13: "fl_mul (8106479329266893 / 9007199254740992) (3152519739159347 / 4503599627370496) = 5674535530486825 / 9007199254740992"
  by (simp add: fl_mul_def rnd_eval [of "-1"] round_half_even_def Let_def floor_rat_numeral)

lemma fl_mul_14: "fl_mul (8106479329266893 / 9007199254740992) (3602879701896397 / 4503599627370496) = 6485183463413515 / 9007199254740992"
  by (simp add: fl_mul_def rnd_eval [of "-1"] round_half_even_def Let_def floor_rat_numeral)

lemma fl_mul_15: "fl_mul (4278419646001971 / 4503599627370496) (3152519739159347 / 4503599627370496) = 5989787504402759 / 9007199254740992"
  by (simp add: fl_mul_def rnd_eval [of "-1"] round_half_even_def Let_def floor_rat_numeral)

lemma fl_mul_16: "fl_mul (4278419646001971 / 4503599627370496) (3602879701896397 / 4503599627370496) = 3422735716801577 / 4503599627370496"
  by (simp add: fl_mul_def rnd_eval [of "-1"] round_half_even_def Let_def floor_rat_numeral)

lemmas dec_table = dec_5_1 dec_1_1 dec_2_1 dec_95_2 dec_7_1 dec_8_1

lemmas double_table =
  fl_add_1 fl_add_2 fl_add_3 fl_add_4 fl_add_5 fl_add_6 fl_add_7 fl_add_8
  fl_add_9 fl_add_10 fl_add_11 fl_mul_1 fl_mul_2 fl_mul_3 fl_mul_4 fl_mul_5
  fl_mul_6 fl_mul_7 fl_mul_8 fl_mul_9 fl_mul_10 fl_mul_11 fl_mul_12 fl_mul_13
  fl_mul_14 fl_mul_15 fl_mul_16

text \<open>Adding 0 changes none of the sums.\<close>

lemma fl_add_zero_1: "fl_add (1 / 2) 0 = 1 / 2"
  by (simp add: fl_add_def rnd_eval [of "-1"] round_half_even_def Let_def floor_rat_numeral)

lemma fl_add_zero_2: "fl_add (5404319552844595 / 9007199254740992) 0 = 5404319552844595 / 9007199254740992"
  by (simp add: fl_add_def rnd_eval [of "-1"] round_half_even_def Let_def floor_rat_numeral)

lemma fl_add_zero_3: "fl_add (3152519739159347 / 4503599627370496) 0 = 3152519739159347 / 4503599627370496"
  by (simp add: fl_add_def rnd_eval [of "-1"] round_half_even_def Let_def floor_rat_numeral)

lemma fl_add_zero_4: "fl_add (7205759403792793 / 9007199254740992) 0 = 7205759403792793 / 9007199254740992"
  by (simp add: fl_add_def rnd_eval [of "-1"] round_half_even_def Let_def floor_rat_numeral)

lemma fl_add_zero_5: "fl_add (3602879701896397 / 4503599627370496) 0 = 3602879701896397 / 4503599627370496"
  by (simp add: fl_add_def rnd_eval [of "-1"] round_half_even_def Let_def floor_rat_numeral)

lemma fl_add_zero_6: "fl_add (2026619832316723 / 2251799813685248) 0 = 2026619832316723 / 2251799813685248"
  by (simp add: fl_add_def rnd_eval [of "-1"] round_half_even_def Let_def floor_rat_numeral)

lemma fl_add_zero_7: "fl_add (8106479329266893 / 9007199254740992) 0 = 8106479329266893 / 9007199254740992"
  by (simp add: fl_add_def rnd_eval [of "-1"] round_half_even_def Let_def floor_rat_numeral)

lemma fl_add_zero_8: "fl_add (9007199254740991 / 9007199254740992) 0 = 9007199254740991 / 9007199254740992"
  by (simp add: fl_add_def rnd_eval [of "-1"] round_half_even_def Let_def floor_rat_numeral)

lemma fl_add_zero_9: "fl_add (1) 0 = 1"
  by (simp add: fl_add_def rnd_eval [of "0"] round_half_even_def Let_def floor_rat_numeral)

lemma fl_add_zero_10: "fl_add (4953959590107545 / 4503599627370496) 0 = 4953959590107545 / 4503599627370496"
  by (simp add: fl_add_def rnd_eval [of "0"] round_half_even_def Let_def floor_rat_numeral)

lemmas zero_table =
  fl_add_zero_1 fl_add_zero_2 fl_add_zero_3 fl_add_zero_4 fl_add_zero_5 fl_add_zero_6
  fl_add_zero_7 fl_add_zero_8 fl_add_zero_9 fl_add_zero_10

text \<open>The estimator adds a term only when its test holds; this is the sum of all terms,
  an absent one counted as 0, from left to right.\<close>

lemma confidence_double_formula:
  fixes a b c d e :: bool
  shows "(let c0 = dec 5 1;
          c1 = (if a then fl_add c0 (dec 1 1) else c0);
          c2 = (if b then fl_add c1 (dec 1 1) else c1);
          c3 = (if c then fl_add c2 (dec 2 1) else c2);
          c4 = (if d then fl_add c3 (dec 1 1) else c3);
          c5 = (if e then fl_add c4 (dec 1 1) else c4)
      in min (dec 95 2) c5) =
     min (dec 95 2)
       (fl_add (fl_add (fl_add (fl_add (fl_add (dec 5 1)
          (if a then dec 1 1 else 0)) (if b then dec 1 1 else 0))
          (if c then dec 2 1 else 0)) (if d then dec 1 1 else 0)) (if e then dec 1 1 else 0))"
  unfolding dec_table
  by (cases a; cases b; cases c; cases d; cases e; simp add: double_table zero_table)

text \<open>The estimator and the exact formula as functions of the five tests.\<close>

lemma confidence_by_tests:
  fixes a b c d e :: bool
  defines "s \<equiv> (let c0 = dec 5 1;
          c1 = (if a then fl_add c0 (dec 1 1) else c0);
          c2 = (if b then fl_add c1 (dec 1 1) else c1);
          c3 = (if c then fl_add c2 (dec 2 1) else c2);
          c4 = (if d then fl_add c3 (dec 1 1) else c3);
          c5 = (if e then fl_add c4 (dec 1 1) else c4)
      in min (dec 95 2) c5)"
    and "q \<equiv> min (95 / 100)
       (1 / 2 + (if a then 1 / 10 else 0) + (if b then 1 / 10 else 0)
        + (if c then 2 / 10 else 0) + (if d then 1 / 10 else 0)
        + (if e then 1 / 10 else 0))"
  shows "\<bar>s - q\<bar> \<le> 1 / 2 ^ 53 \<and> 1 / 2 \<le> s \<and> s \<le> 95 / 100 \<and>
         getLevel s = exact_level q \<and>
         getLevel (fl_mul s (dec 8 1)) = exact_level (q * (8 / 10)) \<and>
         getLevel (fl_mul s (dec 7 1)) = exact_level (q * (7 / 10))"
  unfolding s_def q_def getLevel_def dec_table
  by (cases a; cases b; cases c; cases d; cases e;
      simp add: double_table exact_level_def)

lemma confidence_exact:
  "finalConfidence detections names =
     min (dec 95 2)
       (fl_add (fl_add (fl_add (fl_add (fl_add (dec 5 1)
          (if length detections > 5 then dec 1 1 else 0))
          (if length detections > 10 then dec 1 1 else 0))
          (if length names > 0 then dec 2 1 else 0))
          (if length names > 1 then dec 1 1 else 0))
          (if length (wordsOf detections) \<ge> 5 then dec 1 1 else 0)) \<and>
   \<bar>finalConfidence detections names -
      exact_score (length detections) (length names) (length (wordsOf detections))\<bar> \<le> 1 / 2 ^ 53 \<and>
   1 / 2 \<le> finalConfidence detections names \<and>
   finalConfidence detections names \<le> 95 / 100 \<and>
   calculateSmartConfidence detections names =
     \<lparr>businessName = exact_level (exact_score (length detections) (length names) (length (wordsOf detections))),
      address = exact_level (exact_score (length detections) (length names) (length (wordsOf detections)) * (8 / 10)),
      phone = exact_level (exact_score (length detections) (length names) (length (wordsOf detections)) * (7 / 10))\<rparr>"
proof -
  have q: "exact_score (length detections) (length names) (length (wordsOf detections)) =
      min (95 / 100)
       (1 / 2 + (if length detections > 5 then 1 / 10 else 0)
        + (if length detections > 10 then 1 / 10 else 0)
        + (if length names > 0 then 2 / 10 else 0) + (if length names > 1 then 1 / 10 else 0)
        + (if length (wordsOf detections) \<ge> 5 then 1 / 10 else 0))"
    by (simp add: exact_score_def Suc_le_eq)
  have f: "finalConfidence detections names =
     min (dec 95 2)
       (fl_add (fl_add (fl_add (fl_add (fl_add (dec 5 1)
          (if length detections > 5 then dec 1 1 else 0))
          (if length detections > 10 then dec 1 1 else 0))
          (if length names > 0 then dec 2 1 else 0))
          (if length names > 1 then dec 1 1 else 0))
          (if length (wordsOf detections) \<ge> 5 then dec 1 1 else 0))"
    unfolding finalConfidence_def
    by (rule confidence_double_formula)
  have r: "\<bar>finalConfidence detections names -
      exact_score (length detections) (length names) (length (wordsOf detections))\<bar> \<le> 1 / 2 ^ 53 \<and>
   1 / 2 \<le> finalConfidence detections names \<and>
   finalConfidence detections names \<le> 95 / 100 \<and>
   calculateSmartConfidence detections names =
     \<lparr>businessName = exact_level (exact_score (length detections) (length names) (length (wordsOf detections))),
      address = exact_level (exact_score (length detections) (length names) (length (wordsOf detections)) * (8 / 10)),
      phone = exact_level (exact_score (length detections) (length names) (length (wordsOf detections)) * (7 / 10))\<rparr>"
    unfolding q finalConfidence_def calculateSmartConfidence_def
    using confidence_by_tests [of "length detections > 5" "length detections > 10"
      "length names > 0" "length names > 1" "length (wordsOf detections) \<ge> 5"]
    by (simp add: Let_def)
  from f r show ?thesis by (rule conjI)
qed

text \<open>
  C5. For every detection list and business-name list, the confidence score is the sum,
  in double arithmetic and from left to right, of 0.5, of 0.1 if there are more than 5
  detections, of 0.1 if more than 10, of 0.2 if there is at least one business name, of
  0.1 if more than one, and of 0.1 if the full text has at least 5 tokens, clamped to at
  most 0.95. It differs from the exact value of this formula by at most \<open>2 ^ -53\<close>, lies
  between 0.5 and 0.95, and the three levels are those of the exact formula: the level
  of the score, of the score times 0.8 and of the score times 0.7, with High above 0.7,
  Medium above 0.5 and Low otherwise.
\<close>

theorem confidence_score_and_levels:
  "finalConfidence detections names =
     min (dec 95 2)
       (fl_add (fl_add (fl_add (fl_add (fl_add (dec 5 1)
          (if length detections > 5 then dec 1 1 else 0))
          (if length detections > 10 then dec 1 1 else 0))
          (if length names > 0 then dec 2 1 else 0))
          (if length names > 1 then dec 1 1 else 0))
          (if length (wordsOf detections) \<ge> 5 then dec 1 1 else 0)) \<and>
   \<bar>finalConfidence detections names -
      exact_score (length detections) (length names) (length (wordsOf detections))\<bar> \<le> 1 / 2 ^ 53 \<and>
   1 / 2 \<le> finalConfidence detections names \<and>
   finalConfidence detections names \<le> 95 / 100 \<and>
   calculateSmartConfidence detections names =
     \<lparr>businessName = exact_level (exact_score (length detections) (length names) (length (wordsOf detections))),
      address = exact_level (exact_score (length detections) (length names) (length (wordsOf detections)) * (8 / 10)),
      phone = exact_level (exact_score (length detections) (length names) (length (wordsOf detections)) * (7 / 10))\<rparr>"
  by (rule confidence_exact)

theorem confidence_score_and_levels_witness:
  "calculateSmartConfidence
     [\<lparr>description = Some ''12 34 56 78 90''\<rparr>, \<lparr>description = Some ''12''\<rparr>,
      \<lparr>description = Some ''34''\<rparr>, \<lparr>description = Some ''56''\<rparr>,
      \<lparr>description = Some ''78''\<rparr>, \<lparr>description = Some ''90''\<rparr>]
     [] =
   \<lparr>businessName = Medium, address = Medium, phone = Low\<rparr>"
proof -
  let ?d = "[\<lparr>description = Some ''12 34 56 78 90''\<rparr>, \<lparr>description = Some ''12''\<rparr>,
      \<lparr>description = Some ''34''\<rparr>, \<lparr>description = Some ''56''\<rparr>,
      \<lparr>description = Some ''78''\<rparr>, \<lparr>description = Some ''90''\<rparr>]"
  have l: "length ?d = 6" by simp
  have w: "length (wordsOf ?d) = 5" by code_simp
  from confidence_score_and_levels [of ?d "[]"] show ?thesis
    unfolding l w by (simp add: exact_score_def exact_level_def)
qed

section \<open>A text without meaningful lines\<close>

lemma generators_Nil:
  "extractWithBusinessContext [] = []" "extractWithPositionalWeighting [] = []"
  "extractWithPatternMatching [] = []"
  by (simp_all add: extractWithBusinessContext_def extractWithPositionalWeighting_def
      extractWithPatternMatching_def)

lemma no_lines_no_names:
  "cleanedLines t = [] \<Longrightarrow> extractBusinessNamesWithContext t = []"
  by (simp add: extractBusinessNamesWithContext_def topCandidates_def rankedCandidates_def
      scoredCandidates_def generatedCandidates_def generators_Nil removeSimilarCandidates_def
      sortByScore_def arr_slice_def)

lemma level_without_names:
  "exact_level (exact_score d 0 w) =
     (if d \<le> 5 \<and> w < 5 then Low else if d > 10 \<and> w \<ge> 5 then High else Medium)"
  by (simp add: exact_level_def exact_score_def)

text \<open>
  C6, as stated, fails: the text \<open>12 34 56 78 90\<close> with its five word detections (six
  detections) has no line left after filtering and no business name, and its
  business-name confidence is Medium (0.5 + 0.1 + 0.1), not Low.
\<close>

theorem digits_only_text_is_medium:
  "cleanedLines ''12 34 56 78 90'' = [] \<and>
   extractTextWithEnhancedVision
     [\<lparr>description = Some ''12 34 56 78 90''\<rparr>, \<lparr>description = Some ''12''\<rparr>,
      \<lparr>description = Some ''34''\<rparr>, \<lparr>description = Some ''56''\<rparr>,
      \<lparr>description = Some ''78''\<rparr>, \<lparr>description = Some ''90''\<rparr>] =
     Inr \<lparr>businessNames = [], addresses = [], phoneNumbers = [], websites = [], emails = [],
          otherText = [''12 34 56 78 90''],
          confidence = \<lparr>businessName = Medium, address = Medium, phone = Low\<rparr>\<rparr>"
  by code_simp

text \<open>
  C6, amended. When the filtered line list of a non-empty detection list is empty, the
  three generators return nothing, the business names are empty, and the business-name
  confidence is Low when there are at most 5 detections and fewer than 5 tokens, High
  when there are more than 10 detections and at least 5 tokens, and Medium otherwise.
\<close>

theorem no_lines_confidence:
  assumes "detections \<noteq> []" and "cleanedLines (fullTextOf detections) = []"
  shows "extractWithBusinessContext (cleanedLines (fullTextOf detections)) = [] \<and>
     extractWithPositionalWeighting (cleanedLines (fullTextOf detections)) = [] \<and>
     extractWithPatternMatching (cleanedLines (fullTextOf detections)) = [] \<and>
     (\<exists>r. extractTextWithEnhancedVision detections = Inr r \<and> businessNames r = [] \<and>
        businessName (confidence r) =
          (if length detections \<le> 5 \<and> length (wordsOf detections) < 5 then Low
           else if length detections > 10 \<and> length (wordsOf detections) \<ge> 5 then High
           else Medium))"
proof -
  have n: "extractBusinessNamesWithContext (fullTextOf detections) = []"
    using assms(2) by (rule no_lines_no_names)
  have l: "businessName (calculateSmartConfidence detections []) =
      (if length detections \<le> 5 \<and> length (wordsOf detections) < 5 then Low
           else if length detections > 10 \<and> length (wordsOf detections) \<ge> 5 then High
           else Medium)"
    using confidence_exact [of detections "[]"]
    by (simp add: level_without_names)
  from assms(1) n l show ?thesis
    by (simp add: assms(2) generators_Nil extractTextWithEnhancedVision_def Let_def)
qed

theorem no_lines_confidence_witness:
  "[\<lparr>description = Some ''12''\<rparr>] \<noteq> [] \<and>
   cleanedLines (fullTextOf [\<lparr>description = Some ''12''\<rparr>]) = [] \<and>
   (\<exists>r. extractTextWithEnhancedVision [\<lparr>description = Some ''12''\<rparr>] = Inr r \<and>
      businessNames r = [] \<and> businessName (confidence r) = Low)"
proof -
  have h1: "[\<lparr>description = Some ''12''\<rparr>] \<noteq> []" by simp
  have h2: "cleanedLines (fullTextOf [\<lparr>description = Some ''12''\<rparr>]) = []" by code_simp
  have h3: "length [\<lparr>description = Some ''12''\<rparr>] \<le> 5 \<and>
            length (wordsOf [\<lparr>description = Some ''12''\<rparr>]) < 5" by code_simp
  from no_lines_confidence [OF h1 h2] h3 h1 h2 show ?thesis
    by simp
qed

end
